theory Spec2Isabelle
  imports Main
begin

section \<open>Unified-diff hunk parsing (src/Source/common/diffHunk.ts)\<close>

text \<open>
  A shallow embedding of the diff module. JavaScript strings are modelled as
  \<^typ>\<open>string\<close>; a JavaScript \<open>number\<close> that only ever holds an integer is an
  \<^typ>\<open>int\<close>, and one that may also hold \<open>NaN\<close> is a \<open>number\<close> (below).
  Decimal digit strings are read as exact integers: the rounding of IEEE doubles
  above \<open>2^53\<close> is outside the model.
\<close>

subsection \<open>Strings\<close>

abbreviation LF :: char where "LF \<equiv> CHR 0x0A"
abbreviation CR :: char where "CR \<equiv> CHR 0x0D"

text \<open>\<open>text.indexOf(c, from)\<close> for a one-character search string; \<open>None\<close> is \<open>-1\<close>.\<close>

definition indexOf :: "string \<Rightarrow> char \<Rightarrow> nat \<Rightarrow> nat option" where
  "indexOf text c from =
     (if c \<in> set (drop from text)
      then Some (from + length (takeWhile (\<lambda>x. x \<noteq> c) (drop from text)))
      else None)"

text \<open>\<open>text.substr(start, len)\<close>; a negative length gives the empty string, as
  the truncated subtraction of \<^typ>\<open>nat\<close> does.\<close>

definition substr :: "string \<Rightarrow> nat \<Rightarrow> nat \<Rightarrow> string" where
  "substr text start len = take len (drop start text)"

lemma takeWhile_neq_shorter:
  "c \<in> set xs \<Longrightarrow> length (takeWhile (\<lambda>x. x \<noteq> c) xs) < length xs"
  by (induction xs) auto

lemma indexOf_bounds:
  "indexOf text c from = Some i \<Longrightarrow> from \<le> i \<and> i < length text"
  using takeWhile_neq_shorter [of c "drop from text"]
  by (auto simp: indexOf_def split: if_splits)

subsection \<open>The line scanner\<close>

text \<open>
  The generator \<open>LineReader\<close>, with the loop variable \<open>index\<close> as the argument of
  the recursion; the list holds the yielded lines in order. After a search that
  finds no line feed the source sets \<open>index\<close> to \<open>-1\<close>, which ends the loop.
\<close>

function LineReader_from :: "string \<Rightarrow> nat \<Rightarrow> string list" where
  "LineReader_from text index =
     (if index < length text then
        (case indexOf text LF index of
           None \<Rightarrow> [substr text index (length text - index)]
         | Some i \<Rightarrow>
             substr text index
               (if 0 < i \<and> text ! (i - 1) = CR then i - index - 1 else i - index)
             # LineReader_from text (Suc i))
      else [])"
  by pat_completeness auto
termination
  by (relation "measure (\<lambda>(text, index). length text - index)")
     (auto dest: indexOf_bounds)

declare LineReader_from.simps [simp del]

definition LineReader :: "string \<Rightarrow> string list" where
  "LineReader text = LineReader_from text 0"

subsection \<open>Numbers\<close>

datatype number = NaN | Num int

definition is_digit :: "char \<Rightarrow> bool" where
  "is_digit c = (c \<in> set ''0123456789'')"

definition digit_value :: "char \<Rightarrow> int" where
  "digit_value c = int (length (takeWhile (\<lambda>d. d \<noteq> c) ''0123456789''))"

text \<open>\<open>Number(s)\<close> for a string of decimal digits, as captured by \<open>(\d+)\<close>.\<close>

definition Number_digits :: "string \<Rightarrow> int" where
  "Number_digits s = foldl (\<lambda>acc c. 10 * acc + digit_value c) 0 s"

text \<open>\<open>Number(g)\<close> for a capture group, which is \<open>undefined\<close> when the group took
  no part in the match: \<open>Number(undefined)\<close> is \<open>NaN\<close>.\<close>

definition Number_group :: "string option \<Rightarrow> number" where
  "Number_group g = (case g of None \<Rightarrow> NaN | Some s \<Rightarrow> Num (Number_digits s))"

text \<open>\<open>Number(g) || 1\<close>: \<open>NaN\<close> and \<open>0\<close> are falsy.\<close>

definition Number_or_1 :: "string option \<Rightarrow> int" where
  "Number_or_1 g =
     (case Number_group g of NaN \<Rightarrow> 1 | Num n \<Rightarrow> if n = 0 then 1 else n)"

subsection \<open>The hunk header pattern\<close>

text \<open>
  \<^verbatim>\<open>DIFF_HUNK_HEADER = /^@@ \-(\d+)(,(\d+))?( \+(\d+)(,(\d+)?)?)? @@/\<close>

  The expression is matched from the start of the line, piece by piece. No piece
  leaves a choice to backtracking: a run of digits is followed by a character
  that is no digit, and an optional group starts with a character (\<open>,\<close> or
  \<open>+\<close> after the blank) that the rest of the pattern cannot take.
\<close>

definition strip_prefix :: "string \<Rightarrow> string \<Rightarrow> string option" where
  "strip_prefix p s = (if take (length p) s = p then Some (drop (length p) s) else None)"

text \<open>The captures 1, 3, 5 and 7 of a match.\<close>

record header_match =
  group1 :: string
  group3 :: "string option"
  group5 :: "string option"
  group7 :: "string option"

text \<open>\<open>(,(\d+))?\<close>: the capture and the rest of the line.\<close>

definition old_count :: "string \<Rightarrow> string option \<times> string" where
  "old_count s =
     (case strip_prefix '','' s of
        None \<Rightarrow> (None, s)
      | Some r \<Rightarrow>
          if takeWhile is_digit r = [] then (None, s)
          else (Some (takeWhile is_digit r), dropWhile is_digit r))"

text \<open>\<open>(,(\d+)?)?\<close>: the count may be missing after the comma.\<close>

definition new_count :: "string \<Rightarrow> string option \<times> string" where
  "new_count s =
     (case strip_prefix '','' s of
        None \<Rightarrow> (None, s)
      | Some r \<Rightarrow>
          if takeWhile is_digit r = [] then (None, r)
          else (Some (takeWhile is_digit r), dropWhile is_digit r))"

text \<open>\<open>( \+(\d+)(,(\d+)?)?)?\<close>: captures 5 and 7 and the rest of the line.\<close>

definition new_range :: "string \<Rightarrow> string option \<times> string option \<times> string" where
  "new_range s =
     (case strip_prefix '' +'' s of
        None \<Rightarrow> (None, None, s)
      | Some r \<Rightarrow>
          if takeWhile is_digit r = [] then (None, None, s)
          else (case new_count (dropWhile is_digit r) of
                  (g7, rest) \<Rightarrow> (Some (takeWhile is_digit r), g7, rest)))"

definition DIFF_HUNK_HEADER_exec :: "string \<Rightarrow> header_match option" where
  "DIFF_HUNK_HEADER_exec line =
     (case strip_prefix ''@@ -'' line of
        None \<Rightarrow> None
      | Some r1 \<Rightarrow>
          if takeWhile is_digit r1 = [] then None
          else (case old_count (dropWhile is_digit r1) of
                  (g3, r2) \<Rightarrow>
                    (case new_range r2 of
                       (g5, g7, r3) \<Rightarrow>
                         (case strip_prefix '' @@'' r3 of
                            None \<Rightarrow> None
                          | Some _ \<Rightarrow>
                              Some \<lparr>group1 = takeWhile is_digit r1, group3 = g3,
                                    group5 = g5, group7 = g7\<rparr>))))"

definition DIFF_HUNK_HEADER_test :: "string \<Rightarrow> bool" where
  "DIFF_HUNK_HEADER_test line = (DIFF_HUNK_HEADER_exec line \<noteq> None)"

subsection \<open>Lines and hunks\<close>

datatype DiffChangeType = Context | Add | Delete | Control

text \<open>Class \<open>DiffLine\<close>; \<open>line_type\<close> is its field \<open>type\<close>, \<open>line_text\<close> its
  getter \<open>text\<close>.\<close>

record DiffLine =
  line_type :: DiffChangeType
  oldLineNumber :: number
  newLineNumber :: number
  positionInHunk :: int
  raw :: string
  endwithLineBreak :: bool

definition line_text :: "DiffLine \<Rightarrow> string" where
  "line_text l = substr (raw l) 1 (length (raw l))"

text \<open>\<open>new DiffLine(type, old, new, position, raw)\<close>: \<open>endwithLineBreak\<close> defaults
  to true.\<close>

definition new_DiffLine ::
  "DiffChangeType \<Rightarrow> number \<Rightarrow> number \<Rightarrow> int \<Rightarrow> string \<Rightarrow> DiffLine" where
  "new_DiffLine t ol nl pos r =
     \<lparr>line_type = t, oldLineNumber = ol, newLineNumber = nl, positionInHunk = pos,
      raw = r, endwithLineBreak = True\<rparr>"

fun getDiffChangeType :: "string \<Rightarrow> DiffChangeType" where
  "getDiffChangeType [] = Control"
| "getDiffChangeType (c # _) =
     (if c = CHR '' '' then Context
      else if c = CHR ''+'' then Add
      else if c = CHR ''-'' then Delete
      else Control)"

text \<open>Class \<open>DiffHunk\<close>; the fields \<open>oldLineNumber\<close>, \<open>newLineNumber\<close> and
  \<open>positionInHunk\<close> carry the prefix \<open>hunk_\<close> here.\<close>

record DiffHunk =
  hunk_oldLineNumber :: number
  oldLength :: int
  hunk_newLineNumber :: number
  newLength :: int
  hunk_positionInHunk :: int
  diffLines :: "DiffLine list"

definition countCarriageReturns :: "string \<Rightarrow> int" where
  "countCarriageReturns s = int (length (filter (\<lambda>c. c = CR) s))"

text \<open>\<open>n += k\<close> on a number: \<open>NaN\<close> stays \<open>NaN\<close>.\<close>

fun num_add :: "number \<Rightarrow> int \<Rightarrow> number" where
  "num_add NaN k = NaN"
| "num_add (Num n) k = Num (n + k)"

subsection \<open>The hunk parser\<close>

datatype error = TypeError

text \<open>
  The local variables of the generator \<open>parseDiffHunk\<close>, and the hunks it has
  yielded so far. (\<open>cur_position\<close> is the variable \<open>positionInHunk\<close>.)
\<close>

record parser_state =
  diffHunk :: "DiffHunk option"
  cur_position :: int
  oldLine :: number
  newLine :: number
  yielded :: "DiffHunk list"

definition init_state :: parser_state where
  "init_state =
     \<lparr>diffHunk = None, cur_position = - 1, oldLine = Num (- 1), newLine = Num (- 1),
      yielded = []\<rparr>"

text \<open>The end of the loop body: \<open>if (positionInHunk !== -1) ++positionInHunk\<close>.\<close>

definition bump_position :: "parser_state \<Rightarrow> parser_state" where
  "bump_position st =
     (if cur_position st \<noteq> - 1 then st\<lparr>cur_position := cur_position st + 1\<rparr> else st)"

text \<open>The branch of a header line. Reading a capture of \<open>null\<close> would throw.\<close>

definition header_line :: "string \<Rightarrow> parser_state \<Rightarrow> error + parser_state" where
  "header_line line st =
     (let st1 = (case diffHunk st of
                   Some h \<Rightarrow> st\<lparr>yielded := yielded st @ [h], diffHunk := None\<rparr>
                 | None \<Rightarrow> st);
          pos = (if cur_position st1 = - 1 then 0 else cur_position st1)
      in case DIFF_HUNK_HEADER_exec line of
           None \<Rightarrow> Inl TypeError
         | Some m \<Rightarrow>
             Inr (st1\<lparr>cur_position := pos,
                      oldLine := Num (Number_digits (group1 m)),
                      newLine := Number_group (group5 m),
                      diffHunk := Some
                        \<lparr>hunk_oldLineNumber = Num (Number_digits (group1 m)),
                         oldLength = Number_or_1 (group3 m),
                         hunk_newLineNumber = Number_group (group5 m),
                         newLength = Number_or_1 (group7 m),
                         hunk_positionInHunk = pos,
                         diffLines = [new_DiffLine Control (Num (- 1)) (Num (- 1)) pos line]\<rparr>\<rparr>))"

text \<open>The branch of any other line while a hunk is open.\<close>

definition body_line :: "string \<Rightarrow> DiffHunk \<Rightarrow> parser_state \<Rightarrow> parser_state" where
  "body_line line h st =
     (let t = getDiffChangeType line; ds = diffLines h in
      if t = Control then
        (if ds \<noteq> [] then
           st\<lparr>diffHunk := Some (h\<lparr>diffLines :=
                 ds[length ds - 1 := (ds ! (length ds - 1))\<lparr>endwithLineBreak := False\<rparr>]\<rparr>)\<rparr>
         else st)
      else
        (let l = new_DiffLine t
                   (if t \<noteq> Add then oldLine st else Num (- 1))
                   (if t \<noteq> Delete then newLine st else Num (- 1))
                   (cur_position st) line;
             lineCount = 1 + countCarriageReturns line;
             st1 = st\<lparr>diffHunk := Some (h\<lparr>diffLines := ds @ [l]\<rparr>)\<rparr>
         in case t of
              Context \<Rightarrow> st1\<lparr>oldLine := num_add (oldLine st) lineCount,
                              newLine := num_add (newLine st) lineCount\<rparr>
            | Delete \<Rightarrow> st1\<lparr>oldLine := num_add (oldLine st) lineCount\<rparr>
            | Add \<Rightarrow> st1\<lparr>newLine := num_add (newLine st) lineCount\<rparr>
            | Control \<Rightarrow> st1))"

text \<open>One turn of the \<open>while\<close> loop.\<close>

definition parse_line :: "string \<Rightarrow> parser_state \<Rightarrow> error + parser_state" where
  "parse_line line st =
     (if DIFF_HUNK_HEADER_test line then
        (case header_line line st of
           Inl e \<Rightarrow> Inl e
         | Inr st' \<Rightarrow> Inr (bump_position st'))
      else
        (case diffHunk st of
           Some h \<Rightarrow> Inr (bump_position (body_line line h st))
         | None \<Rightarrow> Inr (bump_position st)))"

fun parse_lines :: "string list \<Rightarrow> parser_state \<Rightarrow> error + parser_state" where
  "parse_lines [] st = Inr st"
| "parse_lines (line # rest) st =
     (case parse_line line st of
        Inl e \<Rightarrow> Inl e
      | Inr st' \<Rightarrow> parse_lines rest st')"

text \<open>After the loop the open hunk, if any, is yielded.\<close>

definition finish :: "parser_state \<Rightarrow> DiffHunk list" where
  "finish st = yielded st @ (case diffHunk st of Some h \<Rightarrow> [h] | None \<Rightarrow> [])"

definition parseDiffHunk :: "string \<Rightarrow> error + DiffHunk list" where
  "parseDiffHunk diffHunkPatch =
     (case parse_lines (LineReader diffHunkPatch) init_state of
        Inl e \<Rightarrow> Inl e
      | Inr st \<Rightarrow> Inr (finish st))"

text \<open>\<open>parsePatch\<close> drains the generator into an array.\<close>

definition parsePatch :: "string \<Rightarrow> error + DiffHunk list" where
  "parsePatch patch = parseDiffHunk patch"

subsection \<open>The hunk segmenter\<close>

text \<open>The closures of \<open>splitIntoSmallerHunks\<close>. A hunk is changed in place in the
  source; here the changed hunk is returned.\<close>

definition newHunk :: "DiffLine \<Rightarrow> DiffHunk" where
  "newHunk fromLine =
     \<lparr>hunk_oldLineNumber = oldLineNumber fromLine, oldLength = 0,
      hunk_newLineNumber = newLineNumber fromLine, newLength = 0,
      hunk_positionInHunk = 0, diffLines = []\<rparr>"

definition addLineToHunk :: "DiffHunk \<Rightarrow> DiffLine \<Rightarrow> DiffHunk" where
  "addLineToHunk hunk line =
     (let h = hunk\<lparr>diffLines := diffLines hunk @ [line]\<rparr> in
      if line_type line = Delete then h\<lparr>oldLength := oldLength h + 1\<rparr>
      else if line_type line = Add then h\<lparr>newLength := newLength h + 1\<rparr>
      else if line_type line = Context
        then h\<lparr>oldLength := oldLength h + 1, newLength := newLength h + 1\<rparr>
      else h)"

definition hunkHasChanges :: "DiffHunk \<Rightarrow> bool" where
  "hunkHasChanges hunk = list_ex (\<lambda>line. line_type line \<noteq> Context) (diffLines hunk)"

definition hunkHasSandwichedChanges :: "DiffHunk \<Rightarrow> bool" where
  "hunkHasSandwichedChanges hunk =
     (hunkHasChanges hunk \<and>
      line_type (diffLines hunk ! (length (diffLines hunk) - 1)) = Context)"

record split_state =
  splitHunks :: "DiffHunk list"
  currentHunk :: "DiffHunk option"
  nextHunk :: "DiffHunk option"

text \<open>
  The body of the \<open>for\<close> loop. \<open>currentHunk = nextHunk!\<close> only silences the type
  checker: were \<open>nextHunk\<close> undefined, the following \<open>addLineToHunk\<close> would read
  \<open>diffLines\<close> of \<open>undefined\<close> and throw.
\<close>

definition split_step :: "DiffLine \<Rightarrow> split_state \<Rightarrow> error + split_state" where
  "split_step line st =
     (if line_type line = Context then
        (let cur = addLineToHunk
                     (case currentHunk st of None \<Rightarrow> newHunk line | Some h \<Rightarrow> h) line
         in if hunkHasSandwichedChanges cur then
              Inr (st\<lparr>currentHunk := Some cur,
                      nextHunk := Some (addLineToHunk
                        (case nextHunk st of None \<Rightarrow> newHunk line | Some h \<Rightarrow> h) line)\<rparr>)
            else Inr (st\<lparr>currentHunk := Some cur\<rparr>))
      else
        (case currentHunk st of
           None \<Rightarrow> Inr st
         | Some cur \<Rightarrow>
             (let st1 = (if hunkHasSandwichedChanges cur
                         then st\<lparr>splitHunks := splitHunks st @ [cur],
                                 currentHunk := nextHunk st, nextHunk := None\<rparr>
                         else st)
              in if line_type line = Delete \<or> line_type line = Add then
                   (case currentHunk st1 of
                      None \<Rightarrow> Inl TypeError
                    | Some c \<Rightarrow> Inr (st1\<lparr>currentHunk := Some (addLineToHunk c line)\<rparr>))
                 else Inr st1)))"

fun split_loop :: "DiffLine list \<Rightarrow> split_state \<Rightarrow> error + split_state" where
  "split_loop [] st = Inr st"
| "split_loop (line # rest) st =
     (case split_step line st of
        Inl e \<Rightarrow> Inl e
      | Inr st' \<Rightarrow> split_loop rest st')"

definition splitIntoSmallerHunks :: "DiffHunk \<Rightarrow> error + DiffHunk list" where
  "splitIntoSmallerHunks hunk =
     (case split_loop (diffLines hunk)
             \<lparr>splitHunks = [], currentHunk = None, nextHunk = None\<rparr> of
        Inl e \<Rightarrow> Inl e
      | Inr st \<Rightarrow>
          Inr (splitHunks st @ (case currentHunk st of Some h \<Rightarrow> [h] | None \<Rightarrow> [])))"

subsection \<open>The content reconstructor\<close>

text \<open>\<open>s.split(/\r?\n/)\<close>: the first argument is the piece read so far. A carriage
  return belongs to a separator only when a line feed follows it.\<close>

fun split_from :: "string \<Rightarrow> string \<Rightarrow> string list" where
  "split_from piece [] = [piece]"
| "split_from piece (c # cs) =
     (if c = LF then piece # split_from [] cs
      else if c = CR \<and> cs \<noteq> [] \<and> hd cs = LF then piece # split_from [] (tl cs)
      else split_from (piece @ [c]) cs)"

definition split_newlines :: "string \<Rightarrow> string list" where
  "split_newlines s = split_from [] s"

text \<open>\<open>left[k]\<close>: outside the array the value is \<open>undefined\<close>, here \<open>None\<close>.\<close>

definition array_get :: "string list \<Rightarrow> int \<Rightarrow> string option" where
  "array_get xs k = (if 0 \<le> k \<and> k < int (length xs) then Some (xs ! nat k) else None)"

text \<open>The values of \<open>j\<close> in \<open>for (j = a; j < b; j++)\<close>; a comparison with \<open>NaN\<close>
  is false.\<close>

fun loop_range :: "number \<Rightarrow> number \<Rightarrow> int list" where
  "loop_range (Num a) (Num b) = [a..b - 1]"
| "loop_range _ _ = []"

fun num_less :: "number \<Rightarrow> int \<Rightarrow> bool" where
  "num_less (Num a) b = (a < b)"
| "num_less NaN b = False"

text \<open>\<open>right.join("\n")\<close>: an \<open>undefined\<close> element is written as the empty
  string.\<close>

fun join_lines :: "string option list \<Rightarrow> string" where
  "join_lines [] = []"
| "join_lines [x] = (case x of None \<Rightarrow> [] | Some s \<Rightarrow> s)"
| "join_lines (x # y # ys) =
     (case x of None \<Rightarrow> [] | Some s \<Rightarrow> s) @ [LF] @ join_lines (y # ys)"

record recon_state =
  right :: "string option list"
  lastCommonLine :: number

text \<open>What one line of a hunk pushes to \<open>right\<close>.\<close>

definition line_out :: "DiffLine \<Rightarrow> string option list" where
  "line_out diffLine =
     (if line_type diffLine = Delete \<or> line_type diffLine = Control then []
      else if line_type diffLine = Add then [Some (line_text diffLine)]
      else [Some (line_text diffLine)])"

text \<open>The body of the \<open>while\<close> loop for one hunk.\<close>

definition apply_hunk :: "string list \<Rightarrow> recon_state \<Rightarrow> DiffHunk \<Rightarrow> recon_state" where
  "apply_hunk left st hunk =
     (let oriStartLine = hunk_oldLineNumber hunk in
      \<lparr>right = right st
         @ map (\<lambda>j. array_get left (j - 1))
             (loop_range (num_add (lastCommonLine st) 1) oriStartLine)
         @ concat (map line_out (diffLines hunk)),
       lastCommonLine = num_add (num_add oriStartLine (oldLength hunk)) (- 1)\<rparr>)"

text \<open>The search, from the last line backwards, for a line that is no delete;
  the argument is the reversed list of lines.\<close>

fun last_line_break :: "DiffLine list \<Rightarrow> bool" where
  "last_line_break [] = True"
| "last_line_break (l # ls) =
     (if line_type l \<noteq> Delete then endwithLineBreak l else last_line_break ls)"

definition getModifiedContentFromDiffHunk :: "string \<Rightarrow> string \<Rightarrow> error + string" where
  "getModifiedContentFromDiffHunk originalContent patch =
     (let left = split_newlines originalContent in
      case parseDiffHunk patch of
        Inl e \<Rightarrow> Inl e
      | Inr diffHunks \<Rightarrow>
          (let st = foldl (apply_hunk left) \<lparr>right = [], lastCommonLine = Num 0\<rparr> diffHunks;
               lastDiffLineEndsWithNewline =
                 (if diffHunks = [] then True
                  else last_line_break (rev (diffLines (last diffHunks))))
           in Inr (join_lines
                (if lastDiffLineEndsWithNewline then
                   (if num_less (lastCommonLine st) (int (length left)) then
                      right st @ map (\<lambda>j. array_get left (j - 1))
                        (loop_range (num_add (lastCommonLine st) 1)
                           (Num (int (length left) + 1)))
                    else right st @ [Some []])
                 else right st))))"

subsection \<open>The orchestrator\<close>

text \<open>
  The enumeration \<open>GitChangeType\<close>, the classes \<open>SlimFileChange\<close> and
  \<open>InMemFileChange\<close> (module \<open>./file\<close>) and the interface \<open>IRawFileChange\<close> are
  declared outside this module. Of the enumeration the members that
  \<open>getGitChangeType\<close> returns are taken; a file change is the constructor call
  with its arguments in the order of the call.
\<close>

datatype GitChangeType = ADD | DELETE | RENAME | MODIFY | UNKNOWN

definition getGitChangeType :: "string \<Rightarrow> GitChangeType" where
  "getGitChangeType status =
     (if status = ''removed'' then DELETE
      else if status = ''added'' then ADD
      else if status = ''renamed'' then RENAME
      else if status = ''modified'' then MODIFY
      else UNKNOWN)"

record IRawFileChange =
  status :: string
  patch :: "string option"
  additions :: int
  blob_url :: string
  filename :: string
  previous_filename :: "string option"

datatype FileChange =
    SlimFileChange string string GitChangeType string "string option"
  | InMemFileChange string GitChangeType string "string option" string
      "DiffHunk list option" string

text \<open>\<open>!review.patch\<close>: \<open>undefined\<close> and the empty string are falsy.\<close>

definition no_patch :: "string option \<Rightarrow> bool" where
  "no_patch p = (case p of None \<Rightarrow> True | Some s \<Rightarrow> s = [])"

text \<open>The body of the \<open>for\<close> loop: the file change pushed for one record.\<close>

definition parseDiff_review :: "IRawFileChange \<Rightarrow> string \<Rightarrow> error + FileChange" where
  "parseDiff_review review parentCommit =
     (let gitChangeType = getGitChangeType (status review) in
      if no_patch (patch review) \<and> gitChangeType \<noteq> RENAME \<and> gitChangeType \<noteq> MODIFY
         \<and> \<not> (gitChangeType = ADD \<and> additions review = 0)
      then Inr (SlimFileChange parentCommit (blob_url review) gitChangeType
                  (filename review) (previous_filename review))
      else
        (case (case patch review of
                 None \<Rightarrow> Inr None
               | Some p \<Rightarrow>
                   if p = [] then Inr None
                   else (case parsePatch p of
                           Inl e \<Rightarrow> Inl e
                         | Inr hunks \<Rightarrow> Inr (Some hunks))) of
           Inl e \<Rightarrow> Inl e
         | Inr diffHunks \<Rightarrow>
             Inr (InMemFileChange parentCommit gitChangeType (filename review)
                    (previous_filename review)
                    (case patch review of None \<Rightarrow> [] | Some p \<Rightarrow> p)
                    diffHunks (blob_url review))))"

fun parseDiff :: "IRawFileChange list \<Rightarrow> string \<Rightarrow> error + FileChange list" where
  "parseDiff [] parentCommit = Inr []"
| "parseDiff (review # reviews) parentCommit =
     (case parseDiff_review review parentCommit of
        Inl e \<Rightarrow> Inl e
      | Inr fileChange \<Rightarrow>
          (case parseDiff reviews parentCommit of
             Inl e \<Rightarrow> Inl e
           | Inr fileChanges \<Rightarrow> Inr (fileChange # fileChanges)))"

subsection \<open>The text of a header\<close>

text \<open>
  A header line put together from its parts: the old start, the old count if there
  is one, the new range if there is one (the new start, and the digits after a comma
  if there is a comma), and whatever follows the closing \<open>@@\<close>.
\<close>

definition digits :: "string \<Rightarrow> bool" where
  "digits s = (s \<noteq> [] \<and> list_all is_digit s)"

definition count_text :: "string option \<Rightarrow> string" where
  "count_text c = (case c of None \<Rightarrow> [] | Some d \<Rightarrow> '','' @ d)"

definition range_text :: "(string \<times> string option) option \<Rightarrow> string" where
  "range_text r = (case r of None \<Rightarrow> [] | Some (n, c) \<Rightarrow> '' +'' @ n @ count_text c)"

definition header_text ::
  "string \<Rightarrow> string option \<Rightarrow> (string \<times> string option) option \<Rightarrow> string \<Rightarrow> string" where
  "header_text os oc nr rest = ''@@ -'' @ os @ count_text oc @ range_text nr @ '' @@'' @ rest"

text \<open>The parts that \<open>DIFF_HUNK_HEADER\<close> admits: the new range may be missing, and
  the comma of the new range may stand without digits.\<close>

definition header_shape ::
  "string \<Rightarrow> string option \<Rightarrow> (string \<times> string option) option \<Rightarrow> bool" where
  "header_shape os oc nr =
     (digits os \<and> (case oc of None \<Rightarrow> True | Some d \<Rightarrow> digits d) \<and>
      (case nr of None \<Rightarrow> True
       | Some (n, c) \<Rightarrow> digits n \<and> (case c of None \<Rightarrow> True | Some d \<Rightarrow> list_all is_digit d)))"

text \<open>The captures of a header with these parts.\<close>

definition header_groups ::
  "string \<Rightarrow> string option \<Rightarrow> (string \<times> string option) option \<Rightarrow> header_match" where
  "header_groups os oc nr =
     \<lparr>group1 = os, group3 = oc,
      group5 = (case nr of None \<Rightarrow> None | Some (n, c) \<Rightarrow> Some n),
      group7 = (case nr of None \<Rightarrow> None
                | Some (n, c) \<Rightarrow> (case c of None \<Rightarrow> None
                                 | Some d \<Rightarrow> if d = [] then None else Some d))\<rparr>"

text \<open>
  The pattern as the specification writes it,
  \<^verbatim>\<open>@@ -<oldStart>[,<oldCount>]? +<newStart>[,<newCount>]? @@\<close>: both ranges are
  present, and a comma comes with its count.
\<close>

definition spec_header_shape ::
  "string \<Rightarrow> string option \<Rightarrow> (string \<times> string option) option \<Rightarrow> bool" where
  "spec_header_shape os oc nr =
     (digits os \<and> (case oc of None \<Rightarrow> True | Some d \<Rightarrow> digits d) \<and>
      (case nr of None \<Rightarrow> False
       | Some (n, c) \<Rightarrow> digits n \<and> (case c of None \<Rightarrow> True | Some d \<Rightarrow> digits d)))"

definition spec_header_pattern :: "string \<Rightarrow> bool" where
  "spec_header_pattern line =
     (\<exists>os oc nr rest. line = header_text os oc nr rest \<and> spec_header_shape os oc nr)"

subsection \<open>Invariants of the parser's loop\<close>

text \<open>The lines stored so far: those of the yielded hunks, then those of the open
  hunk.\<close>

definition open_lines :: "parser_state \<Rightarrow> DiffLine list" where
  "open_lines st = (case diffHunk st of Some h \<Rightarrow> diffLines h | None \<Rightarrow> [])"

definition state_lines :: "parser_state \<Rightarrow> DiffLine list" where
  "state_lines st = concat (map diffLines (yielded st)) @ open_lines st"

text \<open>The position a header line gets: the counter, started at 0 by the first
  header.\<close>

definition header_position :: "parser_state \<Rightarrow> int" where
  "header_position st = (if cur_position st = - 1 then 0 else cur_position st)"

definition positions :: "parser_state \<Rightarrow> int list" where
  "positions st = map positionInHunk (state_lines st)"

text \<open>The stored positions increase, all lie below the counter, the first is 0,
  and the counter is still \<open>-1\<close> with no hunk open as long as nothing is stored.\<close>

definition position_inv :: "parser_state \<Rightarrow> bool" where
  "position_inv st =
     (sorted_wrt (<) (positions st) \<and> list_all (\<lambda>p. p < cur_position st) (positions st) \<and>
      (positions st = [] \<longrightarrow> cur_position st = - 1 \<and> diffHunk st = None) \<and>
      (positions st \<noteq> [] \<longrightarrow> hd (positions st) = 0))"

text \<open>What a stored line satisfies, and what the cursors \<open>oldLine\<close> and \<open>newLine\<close>
  satisfy while a hunk is open: \<open>NaN\<close> or not negative.\<close>

definition line_ok :: "DiffLine \<Rightarrow> bool" where
  "line_ok l =
     (if line_type l = Control
      then oldLineNumber l = Num (- 1) \<and> newLineNumber l = Num (- 1)
      else (line_type l = Add) = (oldLineNumber l = Num (- 1)) \<and>
           (line_type l = Delete) = (newLineNumber l = Num (- 1)))"

fun cursor_ok :: "number \<Rightarrow> bool" where
  "cursor_ok NaN = True"
| "cursor_ok (Num k) = (0 \<le> k)"

definition number_inv :: "parser_state \<Rightarrow> bool" where
  "number_inv st =
     (list_all line_ok (state_lines st) \<and>
      (diffHunk st \<noteq> None \<longrightarrow> cursor_ok (oldLine st) \<and> cursor_ok (newLine st)))"

subsection \<open>Invariant of the parser's loop: hunks and their headers\<close>

text \<open>The text of the line that heads a hunk.\<close>

definition header_raw :: "DiffHunk \<Rightarrow> string" where
  "header_raw h = raw (hd (diffLines h))"

text \<open>The four numbers of a hunk are those that the captures of the line give.\<close>

definition decoded_from :: "string \<Rightarrow> DiffHunk \<Rightarrow> bool" where
  "decoded_from line h =
     (case DIFF_HUNK_HEADER_exec line of
        None \<Rightarrow> False
      | Some m \<Rightarrow>
          hunk_oldLineNumber h = Num (Number_digits (group1 m)) \<and>
          oldLength h = Number_or_1 (group3 m) \<and>
          hunk_newLineNumber h = Number_group (group5 m) \<and>
          newLength h = Number_or_1 (group7 m))"

text \<open>A hunk starts with a control line, and its numbers are decoded from the text
  of that line.\<close>

definition hunk_ok :: "DiffHunk \<Rightarrow> bool" where
  "hunk_ok h =
     (diffLines h \<noteq> [] \<and> line_type (hd (diffLines h)) = Control \<and>
      decoded_from (header_raw h) h)"

text \<open>After the lines \<open>ls\<close>: every hunk, yielded or open, is as above, and the hunks
  are headed by the lines of \<open>ls\<close> that the pattern accepts, in their order.\<close>

definition header_inv :: "string list \<Rightarrow> parser_state \<Rightarrow> bool" where
  "header_inv ls st =
     (list_all hunk_ok (finish st) \<and>
      map header_raw (finish st) = filter DIFF_HUNK_HEADER_test ls)"

subsection \<open>Invariants of the segmenter's loop\<close>

text \<open>In how many of the given hunks a line occurs.\<close>

definition occurrences :: "DiffLine \<Rightarrow> DiffHunk list \<Rightarrow> nat" where
  "occurrences l hunks = length (filter (\<lambda>h. l \<in> set (diffLines h)) hunks)"

text \<open>The lines of the hunk that \<open>currentHunk\<close> or \<open>nextHunk\<close> holds, and in how many
  of the pieces made so far (the flushed ones and the current one) a line occurs.\<close>

definition lines_of :: "DiffHunk option \<Rightarrow> DiffLine list" where
  "lines_of h = (case h of None \<Rightarrow> [] | Some hunk \<Rightarrow> diffLines hunk)"

definition total_count :: "split_state \<Rightarrow> DiffLine \<Rightarrow> nat" where
  "total_count st l =
     occurrences l (splitHunks st) + (if l \<in> set (lines_of (currentHunk st)) then 1 else 0)"

text \<open>The lines of a hunk from its first \<open>Context\<close> line on, and the number of pieces
  in which a line of the hunk is found: none for a line before the first
  \<open>Context\<close> line and for a control line, one for a change from the first
  \<open>Context\<close> line on, one or two for a \<open>Context\<close> line.\<close>

definition kept :: "DiffLine list \<Rightarrow> DiffLine list" where
  "kept ls = dropWhile (\<lambda>l. line_type l \<noteq> Context) ls"

definition expected :: "DiffLine list \<Rightarrow> DiffLine \<Rightarrow> nat \<Rightarrow> bool" where
  "expected ls l n =
     (if l \<in> set (kept ls) then
        (case line_type l of
           Context \<Rightarrow> n = 1 \<or> n = 2
         | Add \<Rightarrow> n = 1
         | Delete \<Rightarrow> n = 1
         | Control \<Rightarrow> n = 0)
      else n = 0)"

text \<open>The invariant after the lines \<open>ls\<close>: the counts are as expected; the lines of
  \<open>nextHunk\<close> are \<open>Context\<close> lines of the current piece that are in no flushed
  piece; \<open>nextHunk\<close> is there whenever the current piece has sandwiched changes;
  and a piece is open exactly when a \<open>Context\<close> line has been read.\<close>

definition seg_inv :: "DiffLine list \<Rightarrow> split_state \<Rightarrow> bool" where
  "seg_inv ls st =
     ((\<forall>l. expected ls l (total_count st l)) \<and>
      (\<forall>l \<in> set (lines_of (nextHunk st)).
          line_type l = Context \<and> l \<in> set (lines_of (currentHunk st)) \<and>
          occurrences l (splitHunks st) = 0) \<and>
      (\<forall>c. currentHunk st = Some c \<and> hunkHasSandwichedChanges c \<longrightarrow> nextHunk st \<noteq> None) \<and>
      (currentHunk st = None \<longleftrightarrow> kept ls = []))"

subsection \<open>Vocabulary of the statements\<close>

text \<open>The count that the parser stores for a captured count: 1 when there is no
  capture, and 1 when the digits denote 0.\<close>

definition decoded_count :: "string option \<Rightarrow> int" where
  "decoded_count c =
     (case c of None \<Rightarrow> 1 | Some d \<Rightarrow> if Number_digits d = 0 then 1 else Number_digits d)"

text \<open>The hunk that a patch of one header line yields.\<close>

definition header_hunk ::
  "string \<Rightarrow> string option \<Rightarrow> (string \<times> string option) option \<Rightarrow> string \<Rightarrow> DiffHunk" where
  "header_hunk os oc nr rest =
     \<lparr>hunk_oldLineNumber = Num (Number_digits os),
      oldLength = decoded_count oc,
      hunk_newLineNumber = (case nr of None \<Rightarrow> NaN | Some (n, c) \<Rightarrow> Num (Number_digits n)),
      newLength = (case nr of None \<Rightarrow> 1 | Some (n, c) \<Rightarrow> decoded_count c),
      hunk_positionInHunk = 0,
      diffLines = [new_DiffLine Control (Num (- 1)) (Num (- 1)) 0 (header_text os oc nr rest)]\<rparr>"

text \<open>The condition under which \<open>parseDiff\<close> builds a \<open>SlimFileChange\<close>, and what a
  file change built for a record has to be: a slim one under that condition, and
  otherwise a rich one whose hunks are present exactly when the patch text is.\<close>

definition slim_condition :: "IRawFileChange \<Rightarrow> bool" where
  "slim_condition review =
     (no_patch (patch review) \<and> getGitChangeType (status review) \<noteq> RENAME \<and>
      getGitChangeType (status review) \<noteq> MODIFY \<and>
      \<not> (getGitChangeType (status review) = ADD \<and> additions review = 0))"

definition produced_as_claimed :: "IRawFileChange \<Rightarrow> FileChange \<Rightarrow> bool" where
  "produced_as_claimed review fileChange =
     (case fileChange of
        SlimFileChange _ _ _ _ _ \<Rightarrow> slim_condition review
      | InMemFileChange _ _ _ _ _ diffHunks _ \<Rightarrow>
          \<not> slim_condition review \<and> (diffHunks \<noteq> None) = (\<not> no_patch (patch review)))"

text \<open>The content with every carriage return that stands before a line feed left
  out, and whether there is such a pair at all.\<close>

fun crlf_to_lf :: "string \<Rightarrow> string" where
  "crlf_to_lf [] = []"
| "crlf_to_lf (c # cs) =
     (if c = CR \<and> cs \<noteq> [] \<and> hd cs = LF then LF # crlf_to_lf (tl cs)
      else c # crlf_to_lf cs)"

fun has_crlf :: "string \<Rightarrow> bool" where
  "has_crlf [] = False"
| "has_crlf (c # cs) = ((c = CR \<and> cs \<noteq> [] \<and> hd cs = LF) \<or> has_crlf cs)"

subsection \<open>Example inputs\<close>

text \<open>The marker of a missing line break at the end of a file; its first character
  is a backslash.\<close>

definition no_newline_marker :: string where
  "no_newline_marker = CHR 0x5C # '' No newline at end of file''"

definition two_hunk_patch :: string where
  "two_hunk_patch =
     ''@@ -1 +1 @@'' @ [LF] @ '' a'' @ [LF] @ no_newline_marker @ [LF] @
     ''@@ -7 +7,2 @@'' @ [LF] @ ''+b''"

definition two_hunk_result :: "DiffHunk list" where
  "two_hunk_result =
     [\<lparr>hunk_oldLineNumber = Num 1, oldLength = 1, hunk_newLineNumber = Num 1,
       newLength = 1, hunk_positionInHunk = 0,
       diffLines =
         [new_DiffLine Control (Num (- 1)) (Num (- 1)) 0 ''@@ -1 +1 @@'',
          (new_DiffLine Context (Num 1) (Num 1) 1 '' a'')\<lparr>endwithLineBreak := False\<rparr>]\<rparr>,
      \<lparr>hunk_oldLineNumber = Num 7, oldLength = 1, hunk_newLineNumber = Num 7,
       newLength = 2, hunk_positionInHunk = 3,
       diffLines =
         [new_DiffLine Control (Num (- 1)) (Num (- 1)) 3 ''@@ -7 +7,2 @@'',
          new_DiffLine Add (Num (- 1)) (Num 7) 4 ''+b'']\<rparr>]"

definition header_only_hunk :: DiffHunk where
  "header_only_hunk =
     \<lparr>hunk_oldLineNumber = Num 1, oldLength = 1, hunk_newLineNumber = Num 1,
      newLength = 1, hunk_positionInHunk = 0,
      diffLines = [new_DiffLine Control (Num (- 1)) (Num (- 1)) 0 ''@@ -1 +1 @@'']\<rparr>"

definition header_5_hunk :: DiffHunk where
  "header_5_hunk =
     \<lparr>hunk_oldLineNumber = Num 5, oldLength = 1, hunk_newLineNumber = Num 5,
      newLength = 1, hunk_positionInHunk = 0,
      diffLines = [new_DiffLine Control (Num (- 1)) (Num (- 1)) 0 ''@@ -5 +5 @@'']\<rparr>"

definition old_only_hunk :: DiffHunk where
  "old_only_hunk =
     \<lparr>hunk_oldLineNumber = Num 5, oldLength = 1, hunk_newLineNumber = NaN,
      newLength = 1, hunk_positionInHunk = 0,
      diffLines = [new_DiffLine Control (Num (- 1)) (Num (- 1)) 0 ''@@ -5 @@'']\<rparr>"

definition insertion_hunk :: DiffHunk where
  "insertion_hunk =
     \<lparr>hunk_oldLineNumber = Num 1, oldLength = 1, hunk_newLineNumber = Num 1,
      newLength = 2, hunk_positionInHunk = 0,
      diffLines = [new_DiffLine Control (Num (- 1)) (Num (- 1)) 0 ''@@ -1,0 +1,2 @@'']\<rparr>"

definition deletion_hunk :: DiffHunk where
  "deletion_hunk =
     \<lparr>hunk_oldLineNumber = Num 3, oldLength = 2, hunk_newLineNumber = Num 3,
      newLength = 1, hunk_positionInHunk = 0,
      diffLines = [new_DiffLine Control (Num (- 1)) (Num (- 1)) 0 ''@@ -3,2 +3,0 @@'']\<rparr>"

text \<open>A record of an added file without patch text, with the given number of
  additions.\<close>

definition added_record :: "int \<Rightarrow> IRawFileChange" where
  "added_record n =
     \<lparr>status = ''added'', patch = None, additions = n, blob_url = ''u'',
      filename = ''f'', previous_filename = None\<rparr>"

text \<open>A hunk that starts with its changes, and what the segmenter makes of
  it.\<close>

definition leading_change_patch :: string where
  "leading_change_patch =
     ''@@ -1,2 +1,2 @@'' @ [LF] @ ''-a'' @ [LF] @ ''+b'' @ [LF] @ '' c''"

definition leading_change_hunk :: DiffHunk where
  "leading_change_hunk =
     \<lparr>hunk_oldLineNumber = Num 1, oldLength = 2, hunk_newLineNumber = Num 1,
      newLength = 2, hunk_positionInHunk = 0,
      diffLines =
        [new_DiffLine Control (Num (- 1)) (Num (- 1)) 0 ''@@ -1,2 +1,2 @@'',
         new_DiffLine Delete (Num 1) (Num (- 1)) 1 ''-a'',
         new_DiffLine Add (Num (- 1)) (Num 1) 2 ''+b'',
         new_DiffLine Context (Num 2) (Num 2) 3 '' c'']\<rparr>"

definition context_only_hunk :: DiffHunk where
  "context_only_hunk =
     \<lparr>hunk_oldLineNumber = Num 2, oldLength = 1, hunk_newLineNumber = Num 2,
      newLength = 1, hunk_positionInHunk = 0,
      diffLines = [new_DiffLine Context (Num 2) (Num 2) 3 '' c'']\<rparr>"

text \<open>A patch whose second header has a comma without a count, and a patch of
  three hunks with counts of zero: an insertion at the start of a file, an
  insertion further down, and a deletion.\<close>

definition comma_patch :: string where
  "comma_patch = ''@@ -5 +5 @@'' @ [LF] @ '' a'' @ [LF] @ ''@@ -1 +2, @@''"

definition comma_result :: "DiffHunk list" where
  "comma_result =
     [\<lparr>hunk_oldLineNumber = Num 5, oldLength = 1, hunk_newLineNumber = Num 5,
       newLength = 1, hunk_positionInHunk = 0,
       diffLines =
         [new_DiffLine Control (Num (- 1)) (Num (- 1)) 0 ''@@ -5 +5 @@'',
          new_DiffLine Context (Num 5) (Num 5) 1 '' a'']\<rparr>,
      \<lparr>hunk_oldLineNumber = Num 1, oldLength = 1, hunk_newLineNumber = Num 2,
       newLength = 1, hunk_positionInHunk = 2,
       diffLines = [new_DiffLine Control (Num (- 1)) (Num (- 1)) 2 ''@@ -1 +2, @@'']\<rparr>]"

definition zero_count_patch :: string where
  "zero_count_patch =
     ''@@ -0,0 +1 @@'' @ [LF] @ ''+x'' @ [LF] @
     ''@@ -3,0 +4,2 @@'' @ [LF] @ ''+b'' @ [LF] @ ''+c'' @ [LF] @
     ''@@ -9 +8,0 @@'' @ [LF] @ ''-y''"

definition zero_count_result :: "DiffHunk list" where
  "zero_count_result =
     [\<lparr>hunk_oldLineNumber = Num 0, oldLength = 1, hunk_newLineNumber = Num 1,
       newLength = 1, hunk_positionInHunk = 0,
       diffLines =
         [new_DiffLine Control (Num (- 1)) (Num (- 1)) 0 ''@@ -0,0 +1 @@'',
          new_DiffLine Add (Num (- 1)) (Num 1) 1 ''+x'']\<rparr>,
      \<lparr>hunk_oldLineNumber = Num 3, oldLength = 1, hunk_newLineNumber = Num 4,
       newLength = 2, hunk_positionInHunk = 2,
       diffLines =
         [new_DiffLine Control (Num (- 1)) (Num (- 1)) 2 ''@@ -3,0 +4,2 @@'',
          new_DiffLine Add (Num (- 1)) (Num 4) 3 ''+b'',
          new_DiffLine Add (Num (- 1)) (Num 5) 4 ''+c'']\<rparr>,
      \<lparr>hunk_oldLineNumber = Num 9, oldLength = 1, hunk_newLineNumber = Num 8,
       newLength = 1, hunk_positionInHunk = 5,
       diffLines =
         [new_DiffLine Control (Num (- 1)) (Num (- 1)) 5 ''@@ -9 +8,0 @@'',
          new_DiffLine Delete (Num 9) (Num (- 1)) 6 ''-y'']\<rparr>]"

section \<open>Properties\<close>

subsection \<open>The header pattern and the text of a header\<close>

lemma strip_prefix_append: "strip_prefix p (p @ s) = Some s"
  by (simp add: strip_prefix_def)

lemma strip_prefix_SomeD: "strip_prefix p s = Some r \<Longrightarrow> s = p @ r"
  by (auto simp: strip_prefix_def split: if_splits) (metis append_take_drop_id)

lemma digit_run:
  assumes "list_all is_digit d" and "r = [] \<or> \<not> is_digit (hd r)"
  shows "takeWhile is_digit (d @ r) = d" and "dropWhile is_digit (d @ r) = r"
proof -
  from assms(2) have t: "takeWhile is_digit r = []" and dr: "dropWhile is_digit r = r"
    by (cases r; auto)+
  from assms(1) have a: "\<And>x. x \<in> set d \<Longrightarrow> is_digit x" by (simp add: list_all_iff)
  show "takeWhile is_digit (d @ r) = d" using takeWhile_append2 [of d is_digit r] a t by simp
  show "dropWhile is_digit (d @ r) = r" using dropWhile_append2 [of d is_digit r] a dr by simp
qed

lemma no_digit_blank [simp]: "\<not> is_digit (CHR '' '')" "\<not> is_digit (CHR '','')"
  by (simp_all add: is_digit_def)

lemma old_count_text:
  assumes "case oc of None \<Rightarrow> True | Some d \<Rightarrow> digits d"
  shows "old_count (count_text oc @ CHR '' '' # r) = (oc, CHR '' '' # r)"
proof (cases oc)
  case None
  then show ?thesis by (simp add: count_text_def old_count_def strip_prefix_def)
next
  case (Some d)
  with assms have d: "d \<noteq> []" "list_all is_digit d" by (simp_all add: digits_def)
  have "takeWhile is_digit (d @ CHR '' '' # r) = d" "dropWhile is_digit (d @ CHR '' '' # r) = CHR '' '' # r"
    using digit_run [OF d(2), of "CHR '' '' # r"] by simp_all
  with Some d show ?thesis
    by (simp add: count_text_def old_count_def strip_prefix_def)
qed

lemma new_count_text:
  assumes "case c of None \<Rightarrow> True | Some d \<Rightarrow> list_all is_digit d"
  shows "new_count (count_text c @ CHR '' '' # r) =
           ((case c of None \<Rightarrow> None | Some d \<Rightarrow> if d = [] then None else Some d), CHR '' '' # r)"
proof (cases c)
  case None
  then show ?thesis by (simp add: count_text_def new_count_def strip_prefix_def)
next
  case (Some d)
  with assms have d: "list_all is_digit d" by simp
  have "takeWhile is_digit (d @ CHR '' '' # r) = d" "dropWhile is_digit (d @ CHR '' '' # r) = CHR '' '' # r"
    using digit_run [OF d, of "CHR '' '' # r"] by simp_all
  with Some show ?thesis
    by (cases "d = []") (simp_all add: count_text_def new_count_def strip_prefix_def)
qed

lemma new_range_text:
  assumes "case nr of None \<Rightarrow> True
       | Some (n, c) \<Rightarrow> digits n \<and> (case c of None \<Rightarrow> True | Some d \<Rightarrow> list_all is_digit d)"
  shows "new_range (range_text nr @ '' @@'' @ rest) =
           (group5 (header_groups os oc nr), group7 (header_groups os oc nr), '' @@'' @ rest)"
proof (cases nr)
  case None
  then show ?thesis
    by (simp add: range_text_def new_range_def strip_prefix_def header_groups_def)
next
  case (Some p)
  obtain n c where p: "p = (n, c)" by (cases p)
  with assms Some have n: "n \<noteq> []" "list_all is_digit n"
    and c: "case c of None \<Rightarrow> True | Some d \<Rightarrow> list_all is_digit d"
    by (simp_all add: digits_def)
  let ?tail = "count_text c @ '' @@'' @ rest"
  have hd: "?tail = [] \<or> \<not> is_digit (hd ?tail)"
    by (cases c) (simp_all add: count_text_def)
  have tw: "takeWhile is_digit (n @ ?tail) = n" "dropWhile is_digit (n @ ?tail) = ?tail"
    using digit_run [OF n(2) hd] by simp_all
  have nc: "new_count ?tail =
      ((case c of None \<Rightarrow> None | Some d \<Rightarrow> if d = [] then None else Some d), '' @@'' @ rest)"
    using new_count_text [OF c, of "''@@'' @ rest"] by simp
  show ?thesis using Some p n tw nc
    by (simp add: range_text_def new_range_def strip_prefix_def header_groups_def)
qed

lemma exec_header_text:
  assumes "header_shape os oc nr"
  shows "DIFF_HUNK_HEADER_exec (header_text os oc nr rest) = Some (header_groups os oc nr)"
proof -
  from assms have os: "os \<noteq> []" "list_all is_digit os"
    and oc: "case oc of None \<Rightarrow> True | Some d \<Rightarrow> digits d"
    and nr: "case nr of None \<Rightarrow> True
       | Some (n, c) \<Rightarrow> digits n \<and> (case c of None \<Rightarrow> True | Some d \<Rightarrow> list_all is_digit d)"
    by (simp_all add: header_shape_def digits_def)
  let ?t2 = "range_text nr @ '' @@'' @ rest"
  let ?t1 = "count_text oc @ ?t2"
  obtain r where t2: "?t2 = CHR '' '' # r"
    by (cases nr) (auto simp: range_text_def)
  have hd1: "?t1 = [] \<or> \<not> is_digit (hd ?t1)"
    using t2 by (cases oc) (simp_all add: count_text_def)
  have tw: "takeWhile is_digit (os @ ?t1) = os" "dropWhile is_digit (os @ ?t1) = ?t1"
    using digit_run [OF os(2) hd1] by simp_all
  have c1: "old_count ?t1 = (oc, ?t2)"
    using old_count_text [OF oc, of r] t2 by simp
  have c2: "new_range ?t2 =
      (group5 (header_groups os oc nr), group7 (header_groups os oc nr), '' @@'' @ rest)"
    by (rule new_range_text [OF nr])
  have sp: "strip_prefix ''@@ -'' (header_text os oc nr rest) = Some (os @ ?t1)"
    by (simp add: header_text_def strip_prefix_def)
  have sp2: "strip_prefix '' @@'' ('' @@'' @ rest) = Some rest"
    by (rule strip_prefix_append)
  show ?thesis
    unfolding DIFF_HUNK_HEADER_exec_def sp
    using os(1) tw c1 c2 sp2 by (simp add: header_groups_def)
qed


lemma takeWhile_digits: "list_all is_digit (takeWhile is_digit s)"
  by (simp add: list_all_iff) (metis set_takeWhileD)

lemma dropWhile_no_run: "takeWhile P xs = [] \<Longrightarrow> dropWhile P xs = xs"
  by (cases xs) (auto split: if_splits)

lemma old_count_sound:
  assumes "old_count s = (g, r)"
  shows "s = count_text g @ r \<and> (case g of None \<Rightarrow> True | Some d \<Rightarrow> digits d)"
proof (cases "strip_prefix '','' s")
  case None
  with assms show ?thesis by (auto simp: old_count_def count_text_def)
next
  case (Some t)
  then have s: "s = '','' @ t" by (rule strip_prefix_SomeD)
  show ?thesis
  proof (cases "takeWhile is_digit t = []")
    case True
    with assms Some show ?thesis by (auto simp: old_count_def count_text_def)
  next
    case False
    with assms Some have g: "g = Some (takeWhile is_digit t)" and r: "r = dropWhile is_digit t"
      by (auto simp: old_count_def)
    show ?thesis using s False takeWhile_digits [of t]
      by (simp add: g r count_text_def digits_def)
  qed
qed

lemma new_count_sound:
  assumes "new_count s = (g, r)"
  shows "\<exists>c. s = count_text c @ r \<and>
           (case c of None \<Rightarrow> True | Some d \<Rightarrow> list_all is_digit d) \<and>
           g = (case c of None \<Rightarrow> None | Some d \<Rightarrow> if d = [] then None else Some d)"
proof (cases "strip_prefix '','' s")
  case None
  with assms have "s = count_text None @ r \<and> g = None"
    by (auto simp: new_count_def count_text_def)
  then show ?thesis by (intro exI [of _ None]) simp
next
  case (Some t)
  then have s: "s = '','' @ t" by (rule strip_prefix_SomeD)
  from assms Some have r: "r = dropWhile is_digit t"
    and g: "g = (if takeWhile is_digit t = [] then None else Some (takeWhile is_digit t))"
    by (auto simp: new_count_def dropWhile_no_run split: if_splits)
  show ?thesis
    using s takeWhile_digits [of t]
    by (intro exI [of _ "Some (takeWhile is_digit t)"]) (simp add: g r count_text_def)
qed

lemma new_range_sound:
  assumes "new_range s = (g5, g7, r)"
  shows "\<exists>nr. s = range_text nr @ r \<and>
           (case nr of None \<Rightarrow> True
            | Some (n, c) \<Rightarrow> digits n \<and> (case c of None \<Rightarrow> True | Some d \<Rightarrow> list_all is_digit d)) \<and>
           g5 = group5 (header_groups os oc nr) \<and> g7 = group7 (header_groups os oc nr)"
proof (cases "strip_prefix '' +'' s")
  case None
  with assms have "s = range_text None @ r \<and> g5 = None \<and> g7 = None"
    by (auto simp: new_range_def range_text_def)
  then show ?thesis by (intro exI [of _ None]) (simp add: header_groups_def)
next
  case (Some t)
  then have s: "s = '' +'' @ t" by (rule strip_prefix_SomeD)
  show ?thesis
  proof (cases "takeWhile is_digit t = []")
    case True
    with assms Some have "s = range_text None @ r \<and> g5 = None \<and> g7 = None"
      by (auto simp: new_range_def range_text_def)
    then show ?thesis by (intro exI [of _ None]) (simp add: header_groups_def)
  next
    case False
    let ?n = "takeWhile is_digit t"
    from assms Some False have nc: "new_count (dropWhile is_digit t) = (g7, r)"
      and g5: "g5 = Some ?n"
      by (auto simp: new_range_def split: prod.splits)
    from new_count_sound [OF nc] obtain c where
      c: "dropWhile is_digit t = count_text c @ r"
         "case c of None \<Rightarrow> True | Some d \<Rightarrow> list_all is_digit d"
         "g7 = (case c of None \<Rightarrow> None | Some d \<Rightarrow> if d = [] then None else Some d)"
      by blast
    have "t = ?n @ count_text c @ r"
      using takeWhile_dropWhile_id [of is_digit t] c(1) by simp
    with s have s': "s = range_text (Some (?n, c)) @ r" by (simp add: range_text_def)
    show ?thesis
      using s' False takeWhile_digits [of t] c(2,3) g5
      by (intro exI [of _ "Some (?n, c)"]) (simp add: header_groups_def digits_def)
  qed
qed

lemma exec_sound:
  assumes "DIFF_HUNK_HEADER_exec line = Some m"
  shows "\<exists>os oc nr rest. line = header_text os oc nr rest \<and> header_shape os oc nr \<and>
           m = header_groups os oc nr"
proof -
  from assms obtain r1 where sp: "strip_prefix ''@@ -'' line = Some r1"
    by (auto simp: DIFF_HUNK_HEADER_exec_def split: option.splits)
  let ?os = "takeWhile is_digit r1"
  from assms sp have ne: "?os \<noteq> []"
    by (auto simp: DIFF_HUNK_HEADER_exec_def split: if_splits)
  obtain g3 r2 where oc: "old_count (dropWhile is_digit r1) = (g3, r2)"
    by (cases "old_count (dropWhile is_digit r1)")
  obtain g5 g7 r3 where nr: "new_range r2 = (g5, g7, r3)"
    by (cases "new_range r2") auto
  from assms sp ne oc nr obtain rest where sp2: "strip_prefix '' @@'' r3 = Some rest"
    and m: "m = \<lparr>group1 = ?os, group3 = g3, group5 = g5, group7 = g7\<rparr>"
    by (auto simp: DIFF_HUNK_HEADER_exec_def split: option.splits)
  from new_range_sound [OF nr, of ?os g3] obtain nrr where
    n: "r2 = range_text nrr @ r3"
       "case nrr of None \<Rightarrow> True
        | Some (n, c) \<Rightarrow> digits n \<and> (case c of None \<Rightarrow> True | Some d \<Rightarrow> list_all is_digit d)"
       "g5 = group5 (header_groups ?os g3 nrr)" "g7 = group7 (header_groups ?os g3 nrr)"
    by blast
  from old_count_sound [OF oc] have
    o: "dropWhile is_digit r1 = count_text g3 @ r2"
       "case g3 of None \<Rightarrow> True | Some d \<Rightarrow> digits d"
    by simp_all
  have r1: "r1 = ?os @ count_text g3 @ range_text nrr @ '' @@'' @ rest"
    using takeWhile_dropWhile_id [of is_digit r1] o(1) n(1) strip_prefix_SomeD [OF sp2]
    by simp
  have line: "line = header_text ?os g3 nrr rest"
    using strip_prefix_SomeD [OF sp] r1 by (simp add: header_text_def)
  have shape: "header_shape ?os g3 nrr"
    using ne takeWhile_digits [of r1] o(2) n(2) by (simp add: header_shape_def digits_def)
  have "m = header_groups ?os g3 nrr"
    using m n(3,4) by (simp add: header_groups_def)
  with line shape show ?thesis by blast
qed


subsection \<open>The parser is total\<close>

lemma header_line_total:
  "DIFF_HUNK_HEADER_test line \<Longrightarrow> \<exists>st'. header_line line st = Inr st'"
  by (auto simp: DIFF_HUNK_HEADER_test_def header_line_def Let_def)

lemma parse_line_total: "\<exists>st'. parse_line line st = Inr st'"
proof (cases "DIFF_HUNK_HEADER_test line")
  case True
  from header_line_total [OF True] obtain st' where "header_line line st = Inr st'" by blast
  with True show ?thesis by (simp add: parse_line_def)
next
  case False
  then show ?thesis by (simp add: parse_line_def split: option.splits)
qed

lemma parse_lines_total: "\<exists>st'. parse_lines ls st = Inr st'"
proof (induction ls arbitrary: st)
  case Nil
  show ?case by simp
next
  case (Cons line rest)
  obtain st1 where "parse_line line st = Inr st1" using parse_line_total by blast
  with Cons.IH [of st1] show ?case by simp
qed


lemma parseDiffHunk_total: "\<exists>hunks. parseDiffHunk s = Inr hunks"
proof -
  obtain st where "parse_lines (LineReader s) init_state = Inr st"
    using parse_lines_total by blast
  then show ?thesis by (simp add: parseDiffHunk_def)
qed

text \<open>
  Claim C9. Whatever the input string, \<open>parsePatch\<close> returns a list of hunks: the
  scan of the lines ends (the functions above are total), and the one place that
  could throw, the read of a capture after \<open>exec\<close>, is reached only when \<open>test\<close>
  has accepted the line.
\<close>

theorem parsePatch_never_fails: "\<exists>hunks. parsePatch s = Inr hunks"
  using parseDiffHunk_total [of s] by (simp add: parsePatch_def)

subsection \<open>What one line does to the stored lines\<close>

lemma finish_lines: "concat (map diffLines (finish st)) = state_lines st"
  by (simp add: finish_def state_lines_def open_lines_def split: option.splits)

lemma init_lines: "state_lines init_state = []"
  by (simp add: state_lines_def open_lines_def init_state_def)

lemma Number_digits_nonneg: "0 \<le> Number_digits s"
proof -
  have "0 \<le> a \<Longrightarrow> 0 \<le> foldl (\<lambda>acc c. 10 * acc + digit_value c) a s" for a
    by (induction s arbitrary: a) (simp_all add: digit_value_def)
  then show ?thesis by (simp add: Number_digits_def)
qed

lemma header_line_effect:
  assumes "header_line line st = Inr st'"
  shows "state_lines st' =
           state_lines st @ [new_DiffLine Control (Num (- 1)) (Num (- 1)) (header_position st) line]"
    and "cur_position st' = header_position st"
    and "diffHunk st' \<noteq> None"
    and "\<exists>k\<ge>0. oldLine st' = Num k"
    and "newLine st' = NaN \<or> (\<exists>k\<ge>0. newLine st' = Num k)"
proof -
  from assms obtain m where m: "DIFF_HUNK_HEADER_exec line = Some m"
    by (auto simp: header_line_def Let_def split: option.splits)
  show "state_lines st' =
           state_lines st @ [new_DiffLine Control (Num (- 1)) (Num (- 1)) (header_position st) line]"
    using assms m
    by (cases "diffHunk st")
       (auto simp: header_line_def Let_def state_lines_def open_lines_def header_position_def)
  show "cur_position st' = header_position st"
    using assms m
    by (cases "diffHunk st") (auto simp: header_line_def Let_def header_position_def)
  show "diffHunk st' \<noteq> None"
    using assms m by (auto simp: header_line_def Let_def)
  show "\<exists>k\<ge>0. oldLine st' = Num k"
    using assms m Number_digits_nonneg by (auto simp: header_line_def Let_def)
  show "newLine st' = NaN \<or> (\<exists>k\<ge>0. newLine st' = Num k)"
    using assms m Number_digits_nonneg
    by (auto simp: header_line_def Let_def Number_group_def split: option.splits)
qed

lemma map_update_last:
  assumes "\<And>l. g (l\<lparr>endwithLineBreak := False\<rparr>) = g l" and "ds \<noteq> []"
  shows "map g (ds[length ds - 1 := (ds ! (length ds - 1))\<lparr>endwithLineBreak := False\<rparr>]) = map g ds"
proof -
  from assms(2) have i: "length ds - 1 < length ds" by (cases ds) simp_all
  have "map g (ds[length ds - 1 := (ds ! (length ds - 1))\<lparr>endwithLineBreak := False\<rparr>])
      = (map g ds)[length ds - 1 := g (ds ! (length ds - 1))]"
    by (simp add: map_update assms(1))
  also have "\<dots> = (map g ds)[length ds - 1 := map g ds ! (length ds - 1)]"
    using i by simp
  also have "\<dots> = map g ds" by (rule list_update_id)
  finally show ?thesis .
qed

lemma body_line_control:
  assumes "diffHunk st = Some h" and "getDiffChangeType line = Control"
    and "\<And>l. g (l\<lparr>endwithLineBreak := False\<rparr>) = g l"
  shows "map g (state_lines (body_line line h st)) = map g (state_lines st)"
    and "cur_position (body_line line h st) = cur_position st"
    and "oldLine (body_line line h st) = oldLine st"
    and "newLine (body_line line h st) = newLine st"
    and "diffHunk (body_line line h st) \<noteq> None"
    and "open_lines (body_line line h st) = [] \<longleftrightarrow> open_lines st = []"
  using assms map_update_last [of g "diffLines h"]
  by (auto simp: body_line_def Let_def state_lines_def open_lines_def)

lemma body_line_content:
  assumes "diffHunk st = Some h" and "getDiffChangeType line = t" and "t \<noteq> Control"
  shows "state_lines (body_line line h st) =
           state_lines st @
             [new_DiffLine t (if t \<noteq> Add then oldLine st else Num (- 1))
                (if t \<noteq> Delete then newLine st else Num (- 1)) (cur_position st) line]"
    and "cur_position (body_line line h st) = cur_position st"
    and "diffHunk (body_line line h st) \<noteq> None"
    and "oldLine (body_line line h st) = oldLine st \<or>
         oldLine (body_line line h st) = num_add (oldLine st) (1 + countCarriageReturns line)"
    and "newLine (body_line line h st) = newLine st \<or>
         newLine (body_line line h st) = num_add (newLine st) (1 + countCarriageReturns line)"
  using assms
  by (cases t; simp add: body_line_def Let_def state_lines_def open_lines_def)+

subsection \<open>Positions\<close>

lemma position_inv_init: "position_inv init_state"
  by (simp add: position_inv_def positions_def init_lines) (simp add: init_state_def)

lemma sorted_snoc: "sorted_wrt (<) (ps @ [c::int]) = (sorted_wrt (<) ps \<and> list_all (\<lambda>p. p < c) ps)"
  by (auto simp: sorted_wrt_append list_all_iff)

lemma list_all_less_mono: "list_all (\<lambda>p. p < (c::int)) ps \<Longrightarrow> c \<le> d \<Longrightarrow> list_all (\<lambda>p. p < d) ps"
  by (auto simp: list_all_iff)

lemma position_inv_grow:
  assumes "sorted_wrt (<) (ps::int list)" "list_all (\<lambda>p. p < c) ps" "ps \<noteq> [] \<Longrightarrow> hd ps = 0"
    "ps = [] \<Longrightarrow> c = 0"
  shows "sorted_wrt (<) (ps @ [c]) \<and> list_all (\<lambda>p. p < c + 1) (ps @ [c]) \<and> hd (ps @ [c]) = 0
         \<and> c \<noteq> - 1"
  using assms by (cases ps) (auto simp: sorted_snoc list_all_iff)

lemma position_inv_cursor:
  assumes "position_inv st" and "positions st \<noteq> []"
  shows "0 < cur_position st"
proof -
  from assms have "hd (positions st) = 0" "list_all (\<lambda>p. p < cur_position st) (positions st)"
    by (simp_all add: position_inv_def)
  with assms(2) show ?thesis by (cases "positions st") simp_all
qed

lemma bump_position_simps:
  "positions (bump_position st) = positions st"
  "diffHunk (bump_position st) = diffHunk st"
  "cur_position (bump_position st) =
     (if cur_position st = - 1 then - 1 else cur_position st + 1)"
  by (simp_all add: positions_def state_lines_def open_lines_def bump_position_def)

lemma position_inv_bump_same:
  assumes "position_inv st" and "positions st' = positions st"
    and "cur_position st' = cur_position st" and "diffHunk st = None \<Longrightarrow> diffHunk st' = None"
  shows "position_inv (bump_position st')"
proof (cases "positions st = []")
  case True
  with assms show ?thesis
    by (simp add: position_inv_def bump_position_simps)
next
  case False
  from position_inv_cursor [OF assms(1) False] have c: "0 < cur_position st" .
  have eq: "positions (bump_position st') = positions st"
    using assms(2) by (simp add: bump_position_simps)
  have cur: "cur_position (bump_position st') = cur_position st + 1"
    using c assms(3) by (simp add: bump_position_simps)
  from assms(1) have "list_all (\<lambda>p. p < cur_position st + 1) (positions st)"
    by (auto simp: position_inv_def list_all_iff)
  with assms(1) False show ?thesis
    by (simp add: position_inv_def eq cur)
qed

lemma position_inv_bump_snoc:
  assumes "position_inv st" and "positions st' = positions st @ [c]"
    and "cur_position st' = c" and "positions st \<noteq> [] \<Longrightarrow> c = cur_position st"
    and "positions st = [] \<Longrightarrow> c = 0"
  shows "position_inv (bump_position st')"
proof -
  from assms(1) have s: "sorted_wrt (<) (positions st)"
    and h: "positions st \<noteq> [] \<Longrightarrow> hd (positions st) = 0"
    by (simp_all add: position_inv_def)
  have a: "list_all (\<lambda>p. p < c) (positions st)"
    using assms(1,4) by (cases "positions st = []") (simp_all add: position_inv_def)
  from position_inv_grow [OF s a h assms(5)]
  have g: "sorted_wrt (<) (positions st @ [c])"
    "list_all (\<lambda>p. p < c + 1) (positions st @ [c])" "hd (positions st @ [c]) = 0" "c \<noteq> - 1"
    by simp_all
  have eq: "positions (bump_position st') = positions st @ [c]"
    using assms(2) by (simp add: bump_position_simps)
  have cur: "cur_position (bump_position st') = c + 1"
    using g(4) assms(3) by (simp add: bump_position_simps)
  show ?thesis using g by (simp add: position_inv_def eq cur)
qed

lemma position_inv_step:
  assumes "position_inv st" and "parse_line line st = Inr st'"
  shows "position_inv st'"
proof (cases "DIFF_HUNK_HEADER_test line")
  case True
  with assms(2) obtain st1 where h: "header_line line st = Inr st1" and st': "st' = bump_position st1"
    by (auto simp: parse_line_def split: sum.splits)
  note e = header_line_effect [OF h]
  have p: "positions st1 = positions st @ [header_position st]"
    by (simp add: positions_def e(1) new_DiffLine_def)
  have c1: "positions st \<noteq> [] \<Longrightarrow> header_position st = cur_position st"
    using position_inv_cursor [OF assms(1)] by (simp add: header_position_def)
  have c2: "positions st = [] \<Longrightarrow> header_position st = 0"
    using assms(1) by (simp add: position_inv_def header_position_def)
  show ?thesis unfolding st'
    by (rule position_inv_bump_snoc [OF assms(1) p e(2) c1 c2])
next
  case False
  show ?thesis
  proof (cases "diffHunk st")
    case None
    with False assms(2) have st': "st' = bump_position st" by (simp add: parse_line_def)
    show ?thesis unfolding st' by (rule position_inv_bump_same [OF assms(1)]) simp_all
  next
    case (Some h)
    with False assms(2) have st': "st' = bump_position (body_line line h st)"
      by (simp add: parse_line_def)
    from Some assms(1) have ne: "positions st \<noteq> []" by (auto simp: position_inv_def)
    show ?thesis
    proof (cases "getDiffChangeType line = Control")
      case True
      note e = body_line_control [OF Some True, of positionInHunk]
      show ?thesis unfolding st'
        by (rule position_inv_bump_same [OF assms(1)])
           (simp_all add: positions_def e Some)
    next
      case False
      note e = body_line_content [OF Some refl False]
      have p: "positions (body_line line h st) = positions st @ [cur_position st]"
        by (simp add: positions_def e(1) new_DiffLine_def)
      show ?thesis unfolding st'
        by (rule position_inv_bump_snoc [OF assms(1) p e(2)]) (simp_all add: ne)
    qed
  qed
qed

lemma position_inv_lines:
  "position_inv st \<Longrightarrow> parse_lines ls st = Inr st' \<Longrightarrow> position_inv st'"
proof (induction ls arbitrary: st)
  case Nil
  then show ?case by simp
next
  case (Cons line rest)
  from Cons.prems(2) obtain st1 where 1: "parse_line line st = Inr st1"
    and 2: "parse_lines rest st1 = Inr st'"
    by (auto split: sum.splits)
  from Cons.IH [OF position_inv_step [OF Cons.prems(1) 1] 2] show ?case .
qed

text \<open>
  Claim C8. For every patch, the \<open>positionInHunk\<close> values of the stored lines of
  all hunks, read in the order in which \<open>parsePatch\<close> returns them, increase
  strictly, and the first of them, if there is any line, is 0.
\<close>

theorem positions_strictly_increasing:
  assumes "parsePatch s = Inr hunks"
  shows "sorted_wrt (<) (map positionInHunk (concat (map diffLines hunks))) \<and>
         (concat (map diffLines hunks) \<noteq> [] \<longrightarrow>
            positionInHunk (hd (concat (map diffLines hunks))) = 0)"
proof -
  from assms obtain st where st: "parse_lines (LineReader s) init_state = Inr st"
    and hunks: "hunks = finish st"
    by (auto simp: parsePatch_def parseDiffHunk_def split: sum.splits)
  from position_inv_lines [OF position_inv_init st] have inv: "position_inv st" .
  have l: "map positionInHunk (concat (map diffLines hunks)) = positions st"
    unfolding hunks finish_lines by (simp add: positions_def)
  have "concat (map diffLines hunks) \<noteq> [] \<Longrightarrow>
      positionInHunk (hd (concat (map diffLines hunks))) = hd (positions st)"
    unfolding l [symmetric] by (simp add: hd_map)
  with inv l show ?thesis by (auto simp: position_inv_def)
qed

theorem positions_strictly_increasing_witness:
  "parsePatch two_hunk_patch = Inr two_hunk_result \<and>
   sorted_wrt (<) (map positionInHunk (concat (map diffLines two_hunk_result))) \<and>
   concat (map diffLines two_hunk_result) \<noteq> [] \<and>
   positionInHunk (hd (concat (map diffLines two_hunk_result))) = 0 \<and>
   map positionInHunk (concat (map diffLines two_hunk_result)) = [0, 1, 3, 4]"
proof -
  have e: "parsePatch two_hunk_patch = Inr two_hunk_result"
    by code_simp
  have ne: "concat (map diffLines two_hunk_result) \<noteq> []"
    by (simp add: two_hunk_result_def)
  have ps: "map positionInHunk (concat (map diffLines two_hunk_result)) = [0, 1, 3, 4]"
    by (simp add: two_hunk_result_def new_DiffLine_def)
  from positions_strictly_increasing [OF e] ne ps show ?thesis
    using e by simp
qed

subsection \<open>Line numbers\<close>

lemma cursor_ok_not_minus: "cursor_ok n \<Longrightarrow> n \<noteq> Num (- 1)"
  by (cases n) auto

lemma countCarriageReturns_nonneg: "0 \<le> countCarriageReturns s"
  by (simp add: countCarriageReturns_def)

lemma cursor_ok_add: "cursor_ok n \<Longrightarrow> 0 \<le> k \<Longrightarrow> cursor_ok (num_add n k)"
  by (cases n) auto

lemma number_inv_bump: "number_inv (bump_position st) = number_inv st"
  by (simp add: number_inv_def bump_position_def state_lines_def open_lines_def)

lemma list_all_as_map: "list_all P xs = (False \<notin> set (map P xs))"
  by (induction xs) auto

lemma list_all_map_eq:
  "map P xs = map P ys \<Longrightarrow> list_all P xs = list_all P ys"
  by (simp only: list_all_as_map)

lemma number_inv_step:
  assumes "number_inv st" and "parse_line line st = Inr st'"
  shows "number_inv st'"
proof (cases "DIFF_HUNK_HEADER_test line")
  case True
  with assms(2) obtain st1 where h: "header_line line st = Inr st1" and st': "st' = bump_position st1"
    by (auto simp: parse_line_def split: sum.splits)
  note e = header_line_effect [OF h]
  from e(4,5) have "cursor_ok (oldLine st1)" "cursor_ok (newLine st1)" by auto
  moreover have "list_all line_ok (state_lines st1)"
    using assms(1) by (simp add: e(1) number_inv_def line_ok_def new_DiffLine_def)
  ultimately show ?thesis by (simp add: st' number_inv_bump) (simp add: number_inv_def)
next
  case False
  show ?thesis
  proof (cases "diffHunk st")
    case None
    with False assms(2) have "st' = bump_position st" by (simp add: parse_line_def)
    with assms(1) show ?thesis by (simp add: number_inv_bump)
  next
    case (Some h)
    with False assms(2) have st': "st' = bump_position (body_line line h st)"
      by (simp add: parse_line_def)
    from Some assms(1) have c: "cursor_ok (oldLine st)" "cursor_ok (newLine st)"
      and l: "list_all line_ok (state_lines st)"
      by (simp_all add: number_inv_def)
    show ?thesis
    proof (cases "getDiffChangeType line = Control")
      case True
      note e = body_line_control [OF Some True, of line_ok]
      have "list_all line_ok (state_lines (body_line line h st))"
        using list_all_map_eq [OF e(1)] l by (simp add: line_ok_def)
      with c show ?thesis by (simp add: st' number_inv_bump) (simp add: number_inv_def e line_ok_def)
    next
      case False
      note e = body_line_content [OF Some refl False]
      have k: "0 \<le> 1 + countCarriageReturns line"
        using countCarriageReturns_nonneg [of line] by simp
      have "cursor_ok (oldLine (body_line line h st))"
        using e(4) c(1) cursor_ok_add [OF c(1) k] by auto
      moreover have "cursor_ok (newLine (body_line line h st))"
        using e(5) c(2) cursor_ok_add [OF c(2) k] by auto
      moreover have "line_ok (new_DiffLine (getDiffChangeType line)
          (if getDiffChangeType line \<noteq> Add then oldLine st else Num (- 1))
          (if getDiffChangeType line \<noteq> Delete then newLine st else Num (- 1))
          (cur_position st) line)"
        using cursor_ok_not_minus [OF c(1)] cursor_ok_not_minus [OF c(2)] False
        by (simp add: line_ok_def new_DiffLine_def)
      ultimately show ?thesis using l
        by (simp add: st' number_inv_bump) (simp add: number_inv_def e(1))
    qed
  qed
qed

lemma number_inv_lines:
  "number_inv st \<Longrightarrow> parse_lines ls st = Inr st' \<Longrightarrow> number_inv st'"
proof (induction ls arbitrary: st)
  case Nil
  then show ?case by simp
next
  case (Cons line rest)
  from Cons.prems(2) obtain st1 where 1: "parse_line line st = Inr st1"
    and 2: "parse_lines rest st1 = Inr st'"
    by (auto split: sum.splits)
  from Cons.IH [OF number_inv_step [OF Cons.prems(1) 1] 2] show ?case .
qed

lemma number_inv_init: "number_inv init_state"
  by (simp add: number_inv_def init_lines) (simp add: init_state_def)

text \<open>
  Claim C6, as amended. For every line stored in a hunk that \<open>parsePatch\<close> returns
  and that is no control line, the kind is \<open>Add\<close> exactly when \<open>oldLineNumber\<close> is
  \<open>-1\<close>, and \<open>Delete\<close> exactly when \<open>newLineNumber\<close> is \<open>-1\<close>. A stored control
  line carries \<open>-1\<close> in both fields.
\<close>

theorem line_numbers_of_content_lines:
  assumes "parsePatch s = Inr hunks" and "h \<in> set hunks" and "l \<in> set (diffLines h)"
  shows "(line_type l \<noteq> Control \<longrightarrow>
            (line_type l = Add) = (oldLineNumber l = Num (- 1)) \<and>
            (line_type l = Delete) = (newLineNumber l = Num (- 1))) \<and>
         (line_type l = Control \<longrightarrow>
            oldLineNumber l = Num (- 1) \<and> newLineNumber l = Num (- 1))"
proof -
  from assms(1) obtain st where st: "parse_lines (LineReader s) init_state = Inr st"
    and hunks: "hunks = finish st"
    by (auto simp: parsePatch_def parseDiffHunk_def split: sum.splits)
  from number_inv_lines [OF number_inv_init st] have "list_all line_ok (state_lines st)"
    by (simp add: number_inv_def)
  moreover from assms(2,3) have "l \<in> set (concat (map diffLines hunks))" by auto
  ultimately have "line_ok l" unfolding hunks finish_lines by (simp add: list_all_iff)
  then show ?thesis by (simp add: line_ok_def split: if_splits)
qed

theorem line_numbers_of_content_lines_witness:
  "parsePatch two_hunk_patch = Inr two_hunk_result \<and>
   two_hunk_result ! 1 \<in> set two_hunk_result \<and>
   new_DiffLine Add (Num (- 1)) (Num 7) 4 ''+b'' \<in> set (diffLines (two_hunk_result ! 1)) \<and>
   line_type (new_DiffLine Add (Num (- 1)) (Num 7) 4 ''+b'') \<noteq> Control \<and>
   (line_type (new_DiffLine Add (Num (- 1)) (Num 7) 4 ''+b'') = Add) =
     (oldLineNumber (new_DiffLine Add (Num (- 1)) (Num 7) 4 ''+b'') = Num (- 1)) \<and>
   (line_type (new_DiffLine Add (Num (- 1)) (Num 7) 4 ''+b'') = Delete) =
     (newLineNumber (new_DiffLine Add (Num (- 1)) (Num 7) 4 ''+b'') = Num (- 1))"
proof -
  have e: "parsePatch two_hunk_patch = Inr two_hunk_result"
    by code_simp
  have h: "two_hunk_result ! 1 \<in> set two_hunk_result"
    by (simp add: two_hunk_result_def)
  have l: "new_DiffLine Add (Num (- 1)) (Num 7) 4 ''+b'' \<in> set (diffLines (two_hunk_result ! 1))"
    by (simp add: two_hunk_result_def)
  have c: "line_type (new_DiffLine Add (Num (- 1)) (Num 7) 4 ''+b'') \<noteq> Control"
    by (simp add: new_DiffLine_def)
  from line_numbers_of_content_lines [OF e h l] c
  have "(line_type (new_DiffLine Add (Num (- 1)) (Num 7) 4 ''+b'') = Add) =
     (oldLineNumber (new_DiffLine Add (Num (- 1)) (Num 7) 4 ''+b'') = Num (- 1)) \<and>
   (line_type (new_DiffLine Add (Num (- 1)) (Num 7) 4 ''+b'') = Delete) =
     (newLineNumber (new_DiffLine Add (Num (- 1)) (Num 7) 4 ''+b'') = Num (- 1))"
    by blast
  with e h l c show ?thesis by blast
qed

text \<open>
  The claim as it is written fails at the control line of a hunk: it is stored, it
  is no \<open>Add\<close> and no \<open>Delete\<close>, and both its line numbers are \<open>-1\<close>.
\<close>

theorem control_line_numbers_counterexample:
  "parsePatch ''@@ -1 +1 @@'' = Inr [header_only_hunk] \<and>
   diffLines header_only_hunk = [new_DiffLine Control (Num (- 1)) (Num (- 1)) 0 ''@@ -1 +1 @@''] \<and>
   line_type (new_DiffLine Control (Num (- 1)) (Num (- 1)) 0 ''@@ -1 +1 @@'') \<noteq> Add \<and>
   oldLineNumber (new_DiffLine Control (Num (- 1)) (Num (- 1)) 0 ''@@ -1 +1 @@'') = Num (- 1) \<and>
   line_type (new_DiffLine Control (Num (- 1)) (Num (- 1)) 0 ''@@ -1 +1 @@'') \<noteq> Delete \<and>
   newLineNumber (new_DiffLine Control (Num (- 1)) (Num (- 1)) 0 ''@@ -1 +1 @@'') = Num (- 1)"
proof -
  have "parsePatch ''@@ -1 +1 @@'' = Inr [header_only_hunk]"
    by code_simp
  then show ?thesis
    by (simp add: header_only_hunk_def new_DiffLine_def)
qed

subsection \<open>Reconstruction of an example\<close>

text \<open>
  Claim C7. With the original content \<open>a, b, c, d\<close> (each line ended by a line feed)
  and the patch whose header is \<open>@@ -1,4 +1,4 @@\<close> and whose body keeps \<open>a\<close>,
  replaces \<open>b\<close> by \<open>B\<close> and keeps \<open>c\<close> and \<open>d\<close>, the reconstruction returns
  \<open>a, B, c, d\<close>, each line ended by a line feed.
\<close>

theorem reconstruction_example:
  "getModifiedContentFromDiffHunk
     (''a'' @ [LF] @ ''b'' @ [LF] @ ''c'' @ [LF] @ ''d'' @ [LF])
     (''@@ -1,4 +1,4 @@'' @ [LF] @ '' a'' @ [LF] @ ''-b'' @ [LF] @ ''+B'' @ [LF] @
      '' c'' @ [LF] @ '' d'')
   = Inr (''a'' @ [LF] @ ''B'' @ [LF] @ ''c'' @ [LF] @ ''d'' @ [LF])"
  by code_simp


subsection \<open>Headers: what is recognized and what is decoded\<close>

lemma LineReader_single:
  assumes "LF \<notin> set s" and "s \<noteq> []"
  shows "LineReader s = [s]"
proof -
  from assms(1) have "indexOf s LF 0 = None" by (simp add: indexOf_def)
  with assms(2) show ?thesis
    by (simp add: LineReader_def LineReader_from.simps [of s 0] substr_def)
qed

lemma LF_no_digit: "\<not> is_digit LF"
  by (simp add: is_digit_def)

lemma digits_no_LF: "list_all is_digit d \<Longrightarrow> LF \<notin> set d"
  using LF_no_digit by (auto simp: list_all_iff)

lemma header_text_line:
  assumes "header_shape os oc nr" and "LF \<notin> set rest"
  shows "LF \<notin> set (header_text os oc nr rest)" and "header_text os oc nr rest \<noteq> []"
proof -
  from assms(1) have os: "LF \<notin> set os"
    by (simp add: header_shape_def digits_def digits_no_LF)
  from assms(1) have oc: "LF \<notin> set (count_text oc)"
    by (cases oc) (simp_all add: header_shape_def digits_def digits_no_LF count_text_def)
  have nr: "LF \<notin> set (range_text nr)"
  proof (cases nr)
    case None
    then show ?thesis by (simp add: range_text_def)
  next
    case (Some q)
    obtain n c where q: "q = (n, c)" by (cases q)
    from assms(1) Some q have n: "LF \<notin> set n"
      and c: "case c of None \<Rightarrow> True | Some d \<Rightarrow> list_all is_digit d"
      by (simp_all add: header_shape_def digits_def digits_no_LF)
    from c have "LF \<notin> set (count_text c)"
      by (cases c) (simp_all add: count_text_def digits_no_LF)
    with n Some q show ?thesis by (simp add: range_text_def)
  qed
  from os oc nr assms(2) show "LF \<notin> set (header_text os oc nr rest)"
    by (simp add: header_text_def)
  show "header_text os oc nr rest \<noteq> []" by (simp add: header_text_def)
qed

lemma Number_or_1_decoded: "Number_or_1 g = decoded_count g"
  by (cases g) (simp_all add: Number_or_1_def Number_group_def decoded_count_def)

lemma Number_digits_Nil: "Number_digits [] = 0"
  by (simp add: Number_digits_def)

lemma parse_header_only:
  assumes "header_shape os oc nr" and "LF \<notin> set rest"
  shows "parsePatch (header_text os oc nr rest) = Inr [header_hunk os oc nr rest]"
proof -
  let ?line = "header_text os oc nr rest"
  have lr: "LineReader ?line = [?line]"
    using header_text_line [OF assms] by (rule LineReader_single)
  have ex: "DIFF_HUNK_HEADER_exec ?line = Some (header_groups os oc nr)"
    by (rule exec_header_text [OF assms(1)])
  then have t: "DIFF_HUNK_HEADER_test ?line" by (simp add: DIFF_HUNK_HEADER_test_def)
  have g7: "Number_or_1 (group7 (header_groups os oc nr)) =
      (case nr of None \<Rightarrow> 1 | Some (n, c) \<Rightarrow> decoded_count c)"
    by (auto simp: header_groups_def Number_or_1_decoded decoded_count_def Number_digits_Nil
          split: option.splits)
  have g5: "Number_group (group5 (header_groups os oc nr)) =
      (case nr of None \<Rightarrow> NaN | Some (n, c) \<Rightarrow> Num (Number_digits n))"
    by (auto simp: header_groups_def Number_group_def split: option.splits)
  have g3: "Number_or_1 (group3 (header_groups os oc nr)) = decoded_count oc"
    by (simp add: header_groups_def Number_or_1_decoded)
  have g1: "group1 (header_groups os oc nr) = os" by (simp add: header_groups_def)
  have h: "header_line ?line init_state =
      Inr (init_state\<lparr>cur_position := 0, oldLine := Num (Number_digits os),
             newLine := (case nr of None \<Rightarrow> NaN | Some (n, c) \<Rightarrow> Num (Number_digits n)),
             diffHunk := Some (header_hunk os oc nr rest)\<rparr>)"
    by (simp add: header_line_def ex Let_def g1 g3 g5 g7 header_hunk_def) (simp add: init_state_def)
  show ?thesis
    unfolding parsePatch_def parseDiffHunk_def lr
    by (simp add: parse_line_def t h) (simp add: finish_def bump_position_def init_state_def)
qed

lemma spec_shape_admitted: "spec_header_shape os oc nr \<Longrightarrow> header_shape os oc nr"
  by (auto simp: spec_header_shape_def header_shape_def digits_def split: option.splits)

lemma test_iff_header_text:
  "DIFF_HUNK_HEADER_test line \<longleftrightarrow>
     (\<exists>os oc nr rest. line = header_text os oc nr rest \<and> header_shape os oc nr)"
proof
  assume "DIFF_HUNK_HEADER_test line"
  then obtain m where "DIFF_HUNK_HEADER_exec line = Some m"
    by (auto simp: DIFF_HUNK_HEADER_test_def)
  from exec_sound [OF this] show
    "\<exists>os oc nr rest. line = header_text os oc nr rest \<and> header_shape os oc nr"
    by blast
next
  assume "\<exists>os oc nr rest. line = header_text os oc nr rest \<and> header_shape os oc nr"
  then obtain os oc nr rest where "line = header_text os oc nr rest" "header_shape os oc nr"
    by blast
  then show "DIFF_HUNK_HEADER_test line"
    using exec_header_text [of os oc nr rest] by (simp add: DIFF_HUNK_HEADER_test_def)
qed

lemma spec_pattern_new_range:
  assumes "spec_header_pattern line"
  shows "\<exists>m. DIFF_HUNK_HEADER_exec line = Some m \<and> group5 m \<noteq> None"
proof -
  from assms obtain os oc nr rest where l: "line = header_text os oc nr rest"
    and sh: "spec_header_shape os oc nr"
    by (auto simp: spec_header_pattern_def)
  from sh have "nr \<noteq> None" by (cases nr) (simp_all add: spec_header_shape_def)
  then have "group5 (header_groups os oc nr) \<noteq> None"
    by (auto simp: header_groups_def)
  with exec_header_text [OF spec_shape_admitted [OF sh], of rest] l show ?thesis by simp
qed

text \<open>Every hunk that the parser returns is headed by a line that the pattern
  accepts, the heads are the accepted lines of the patch in their order, and the
  numbers of a hunk are decoded from its own head.\<close>

lemma finish_bump: "finish (bump_position st) = finish st"
  by (simp add: finish_def bump_position_def)

lemma header_line_finish:
  assumes "header_line line st = Inr st'"
  shows "\<exists>h. finish st' = finish st @ [h] \<and> hunk_ok h \<and> header_raw h = line"
proof -
  from assms obtain m where m: "DIFF_HUNK_HEADER_exec line = Some m"
    by (auto simp: header_line_def Let_def split: option.splits)
  let ?pos = "if cur_position st = - 1 then 0 else cur_position st"
  let ?h = "\<lparr>hunk_oldLineNumber = Num (Number_digits (group1 m)),
             oldLength = Number_or_1 (group3 m),
             hunk_newLineNumber = Number_group (group5 m),
             newLength = Number_or_1 (group7 m),
             hunk_positionInHunk = ?pos,
             diffLines = [new_DiffLine Control (Num (- 1)) (Num (- 1)) ?pos line]\<rparr>"
  have f: "finish st' = finish st @ [?h]"
    using assms m by (cases "diffHunk st") (auto simp: header_line_def Let_def finish_def)
  have r: "header_raw ?h = line" by (simp add: header_raw_def new_DiffLine_def)
  have "hunk_ok ?h"
    unfolding hunk_ok_def r by (simp add: decoded_from_def m new_DiffLine_def)
  with f r show ?thesis by blast
qed

lemma body_line_finish:
  assumes "diffHunk st = Some h" and "hunk_ok h"
  shows "\<exists>h'. finish (body_line line h st) = yielded st @ [h'] \<and> hunk_ok h' \<and>
           header_raw h' = header_raw h"
proof -
  from assms(2) have ne: "diffLines h \<noteq> []" by (simp add: hunk_ok_def)
  show ?thesis
  proof (cases "getDiffChangeType line = Control")
    case True
    let ?ds = "(diffLines h)[length (diffLines h) - 1 :=
                 (diffLines h ! (length (diffLines h) - 1))\<lparr>endwithLineBreak := False\<rparr>]"
    let ?h = "h\<lparr>diffLines := ?ds\<rparr>"
    have f: "finish (body_line line h st) = yielded st @ [?h]"
      using True ne by (simp add: body_line_def Let_def finish_def)
    have ne': "?ds \<noteq> []" using ne by simp
    have "map raw ?ds = map raw (diffLines h)"
      by (rule map_update_last [OF _ ne]) simp
    then have "hd (map raw ?ds) = hd (map raw (diffLines h))" by simp
    then have r: "raw (hd ?ds) = raw (hd (diffLines h))"
      using ne ne' by (simp add: hd_map)
    have "map line_type ?ds = map line_type (diffLines h)"
      by (rule map_update_last [OF _ ne]) simp
    then have "hd (map line_type ?ds) = hd (map line_type (diffLines h))" by simp
    then have t: "line_type (hd ?ds) = line_type (hd (diffLines h))"
      using ne ne' by (simp add: hd_map)
    have hr: "header_raw ?h = header_raw h" using r by (simp add: header_raw_def)
    have "hunk_ok ?h"
      using assms(2) ne' t unfolding hunk_ok_def hr
      by (simp add: decoded_from_def split: option.splits)
    with f hr show ?thesis by blast
  next
    case False
    obtain l where f: "finish (body_line line h st) = yielded st @ [h\<lparr>diffLines := diffLines h @ [l]\<rparr>]"
      using False by (cases "getDiffChangeType line") (simp_all add: body_line_def Let_def finish_def)
    let ?h = "h\<lparr>diffLines := diffLines h @ [l]\<rparr>"
    have hr: "header_raw ?h = header_raw h" using ne by (simp add: header_raw_def)
    have "hunk_ok ?h"
      using assms(2) ne unfolding hunk_ok_def hr
      by (simp add: decoded_from_def split: option.splits)
    with f hr show ?thesis by blast
  qed
qed

lemma header_inv_step:
  assumes "header_inv ls st" and "parse_line line st = Inr st'"
  shows "header_inv (ls @ [line]) st'"
proof (cases "DIFF_HUNK_HEADER_test line")
  case True
  with assms(2) obtain st1 where h: "header_line line st = Inr st1" and st': "st' = bump_position st1"
    by (auto simp: parse_line_def split: sum.splits)
  from header_line_finish [OF h] obtain hk where
    "finish st1 = finish st @ [hk]" "hunk_ok hk" "header_raw hk = line"
    by blast
  with assms(1) True show ?thesis
    by (simp add: header_inv_def st' finish_bump)
next
  case False
  show ?thesis
  proof (cases "diffHunk st")
    case None
    with False assms(2) have "st' = bump_position st" by (simp add: parse_line_def)
    with assms(1) False show ?thesis by (simp add: header_inv_def finish_bump)
  next
    case (Some h)
    with False assms(2) have st': "st' = bump_position (body_line line h st)"
      by (simp add: parse_line_def)
    from Some have fs: "finish st = yielded st @ [h]" by (simp add: finish_def)
    with assms(1) have ok: "hunk_ok h" by (simp add: header_inv_def)
    from body_line_finish [OF Some ok, of line] obtain h' where
      "finish (body_line line h st) = yielded st @ [h']" "hunk_ok h'" "header_raw h' = header_raw h"
      by blast
    with assms(1) False fs show ?thesis
      by (simp add: header_inv_def st' finish_bump)
  qed
qed

lemma header_inv_lines:
  "header_inv seen st \<Longrightarrow> parse_lines ls st = Inr st' \<Longrightarrow> header_inv (seen @ ls) st'"
proof (induction ls arbitrary: seen st)
  case Nil
  then show ?case by simp
next
  case (Cons line rest)
  from Cons.prems(2) obtain st1 where 1: "parse_line line st = Inr st1"
    and 2: "parse_lines rest st1 = Inr st'"
    by (auto split: sum.splits)
  from Cons.IH [OF header_inv_step [OF Cons.prems(1) 1] 2] show ?case by simp
qed

lemma header_inv_init: "header_inv [] init_state"
  by (simp add: header_inv_def finish_def init_state_def)

lemma parsed_hunk_headers:
  assumes "parsePatch s = Inr hunks"
  shows "list_all hunk_ok hunks"
    and "map header_raw hunks = filter DIFF_HUNK_HEADER_test (LineReader s)"
proof -
  from assms obtain st where st: "parse_lines (LineReader s) init_state = Inr st"
    and hunks: "hunks = finish st"
    by (auto simp: parsePatch_def parseDiffHunk_def split: sum.splits)
  from header_inv_lines [OF header_inv_init st] have "header_inv (LineReader s) st" by simp
  then show "list_all hunk_ok hunks"
    and "map header_raw hunks = filter DIFF_HUNK_HEADER_test (LineReader s)"
    by (simp_all add: header_inv_def hunks)
qed

lemma decoded_from_header_text:
  assumes "decoded_from (header_text os oc nr rest) h" and "header_shape os oc nr"
  shows "hunk_oldLineNumber h = Num (Number_digits os)"
    and "oldLength h = decoded_count oc"
    and "hunk_newLineNumber h = (case nr of None \<Rightarrow> NaN | Some (n, c) \<Rightarrow> Num (Number_digits n))"
    and "newLength h = (case nr of None \<Rightarrow> 1 | Some (n, c) \<Rightarrow> decoded_count c)"
proof -
  have ex: "DIFF_HUNK_HEADER_exec (header_text os oc nr rest) = Some (header_groups os oc nr)"
    by (rule exec_header_text [OF assms(2)])
  have g7: "Number_or_1 (group7 (header_groups os oc nr)) =
      (case nr of None \<Rightarrow> 1 | Some (n, c) \<Rightarrow> decoded_count c)"
    by (auto simp: header_groups_def Number_or_1_decoded decoded_count_def Number_digits_Nil
          split: option.splits)
  have g5: "Number_group (group5 (header_groups os oc nr)) =
      (case nr of None \<Rightarrow> NaN | Some (n, c) \<Rightarrow> Num (Number_digits n))"
    by (auto simp: header_groups_def Number_group_def split: option.splits)
  have g3: "Number_or_1 (group3 (header_groups os oc nr)) = decoded_count oc"
    by (simp add: header_groups_def Number_or_1_decoded)
  have g1: "group1 (header_groups os oc nr) = os" by (simp add: header_groups_def)
  from assms(1) show "hunk_oldLineNumber h = Num (Number_digits os)"
    and "oldLength h = decoded_count oc"
    and "hunk_newLineNumber h = (case nr of None \<Rightarrow> NaN | Some (n, c) \<Rightarrow> Num (Number_digits n))"
    and "newLength h = (case nr of None \<Rightarrow> 1 | Some (n, c) \<Rightarrow> decoded_count c)"
    by (simp_all add: decoded_from_def ex g1 g3 g5 g7)
qed

lemma parsed_hunk_decoded:
  assumes "parsePatch s = Inr hunks" and "h \<in> set hunks"
    and "header_raw h = header_text os oc nr rest" and "header_shape os oc nr"
  shows "oldLength h = decoded_count oc"
    and "newLength h = (case nr of None \<Rightarrow> 1 | Some (n, c) \<Rightarrow> decoded_count c)"
proof -
  from parsed_hunk_headers(1) [OF assms(1)] assms(2) have "hunk_ok h"
    by (simp add: list_all_iff)
  then have d: "decoded_from (header_text os oc nr rest) h"
    using assms(3) by (simp add: hunk_ok_def)
  from decoded_from_header_text [OF d assms(4)]
  show "oldLength h = decoded_count oc"
    and "newLength h = (case nr of None \<Rightarrow> 1 | Some (n, c) \<Rightarrow> decoded_count c)"
    by simp_all
qed

lemma parsed_hunk_has_header:
  assumes "parsePatch s = Inr hunks" and "h \<in> set hunks"
  shows "diffLines h \<noteq> [] \<and> line_type (hd (diffLines h)) = Control \<and>
         (\<exists>os oc nr rest. header_raw h = header_text os oc nr rest \<and> header_shape os oc nr)"
proof -
  from parsed_hunk_headers(1) [OF assms(1)] assms(2) have ok: "hunk_ok h"
    by (simp add: list_all_iff)
  then obtain m where "DIFF_HUNK_HEADER_exec (header_raw h) = Some m"
    by (auto simp: hunk_ok_def decoded_from_def split: option.splits)
  from exec_sound [OF this] ok show ?thesis by (auto simp: hunk_ok_def)
qed

lemma decoded_count_positive: "1 \<le> decoded_count c"
proof (cases c)
  case None
  then show ?thesis by (simp add: decoded_count_def)
next
  case (Some d)
  with Number_digits_nonneg [of d] show ?thesis
    by (cases "Number_digits d = 0") (simp_all add: decoded_count_def)
qed

text \<open>
  Claim C5, as amended. A line is recognized as a hunk header exactly when it is
  \<open>@@ -\<close>, the digits of the old start, optionally a comma with the digits of the
  old count, optionally a new range (a blank, \<open>+\<close>, the digits of the new start and
  optionally a comma, with or without digits after it), then \<open> @@\<close> and any text. So
  every line of the specification's pattern is recognized, and so are lines with
  no new range. The hunks that \<open>parsePatch\<close> returns for a patch are headed by the
  recognized lines of the patch, in their order. For every hunk of every patch,
  whatever its place in the patch and whatever its body, \<open>oldLength\<close> is 1 when the
  header has no old count, and \<open>newLength\<close> is 1 when the header has no new range,
  no comma in the new range, or a comma without a count. The header
  \<open>@@ -5 +5 @@\<close> yields \<open>oldLength = 1\<close> and \<open>newLength = 1\<close>.
\<close>

theorem header_recognition:
  "(DIFF_HUNK_HEADER_test line \<longleftrightarrow>
      (\<exists>os oc nr rest. line = header_text os oc nr rest \<and> header_shape os oc nr)) \<and>
   (spec_header_pattern line \<longrightarrow> DIFF_HUNK_HEADER_test line) \<and>
   (parsePatch s = Inr hunks \<longrightarrow>
      map header_raw hunks = filter DIFF_HUNK_HEADER_test (LineReader s)) \<and>
   (parsePatch s = Inr hunks \<and> h \<in> set hunks \<longrightarrow>
      diffLines h \<noteq> [] \<and> line_type (hd (diffLines h)) = Control \<and>
      (\<exists>os oc nr rest. header_raw h = header_text os oc nr rest \<and> header_shape os oc nr)) \<and>
   (parsePatch s = Inr hunks \<and> h \<in> set hunks \<and>
    header_raw h = header_text os oc nr rest \<and> header_shape os oc nr \<longrightarrow>
      (oc = None \<longrightarrow> oldLength h = 1) \<and>
      ((case nr of None \<Rightarrow> True | Some (n, c) \<Rightarrow> c = None \<or> c = Some []) \<longrightarrow>
         newLength h = 1)) \<and>
   (header_shape os oc nr \<and> LF \<notin> set rest \<longrightarrow>
      (\<exists>h. parsePatch (header_text os oc nr rest) = Inr [h] \<and>
           (oc = None \<longrightarrow> oldLength h = 1) \<and>
           ((case nr of None \<Rightarrow> True | Some (n, c) \<Rightarrow> c = None \<or> c = Some []) \<longrightarrow>
              newLength h = 1))) \<and>
   parsePatch ''@@ -5 +5 @@'' = Inr [header_5_hunk] \<and>
   oldLength header_5_hunk = 1 \<and> newLength header_5_hunk = 1"
proof -
  have a: "DIFF_HUNK_HEADER_test line \<longleftrightarrow>
      (\<exists>os oc nr rest. line = header_text os oc nr rest \<and> header_shape os oc nr)"
    by (rule test_iff_header_text)
  have b: "spec_header_pattern line \<longrightarrow> DIFF_HUNK_HEADER_test line"
    using spec_pattern_new_range [of line] by (auto simp: DIFF_HUNK_HEADER_test_def)
  have c: "parsePatch s = Inr hunks \<longrightarrow>
      map header_raw hunks = filter DIFF_HUNK_HEADER_test (LineReader s)"
    using parsed_hunk_headers(2) by blast
  have d: "parsePatch s = Inr hunks \<and> h \<in> set hunks \<longrightarrow>
      diffLines h \<noteq> [] \<and> line_type (hd (diffLines h)) = Control \<and>
      (\<exists>os oc nr rest. header_raw h = header_text os oc nr rest \<and> header_shape os oc nr)"
    using parsed_hunk_has_header by blast
  have one: "(oc = None \<longrightarrow> decoded_count oc = 1) \<and>
      ((case nr of None \<Rightarrow> True | Some (n, c) \<Rightarrow> c = None \<or> c = Some []) \<longrightarrow>
         (case nr of None \<Rightarrow> 1 | Some (n, c) \<Rightarrow> decoded_count c) = 1)"
    by (auto simp: decoded_count_def Number_digits_Nil split: option.splits)
  have e: "parsePatch s = Inr hunks \<and> h \<in> set hunks \<and>
    header_raw h = header_text os oc nr rest \<and> header_shape os oc nr \<longrightarrow>
      (oc = None \<longrightarrow> oldLength h = 1) \<and>
      ((case nr of None \<Rightarrow> True | Some (n, c) \<Rightarrow> c = None \<or> c = Some []) \<longrightarrow>
         newLength h = 1)"
  proof
    assume p: "parsePatch s = Inr hunks \<and> h \<in> set hunks \<and>
      header_raw h = header_text os oc nr rest \<and> header_shape os oc nr"
    then have "oldLength h = decoded_count oc"
      and "newLength h = (case nr of None \<Rightarrow> 1 | Some (n, c) \<Rightarrow> decoded_count c)"
      using parsed_hunk_decoded [of s hunks h os oc nr rest] by simp_all
    then show "(oc = None \<longrightarrow> oldLength h = 1) \<and>
      ((case nr of None \<Rightarrow> True | Some (n, c) \<Rightarrow> c = None \<or> c = Some []) \<longrightarrow>
         newLength h = 1)"
      using one by presburger
  qed
  have f: "header_shape os oc nr \<and> LF \<notin> set rest \<longrightarrow>
      (\<exists>h. parsePatch (header_text os oc nr rest) = Inr [h] \<and>
           (oc = None \<longrightarrow> oldLength h = 1) \<and>
           ((case nr of None \<Rightarrow> True | Some (n, c) \<Rightarrow> c = None \<or> c = Some []) \<longrightarrow>
              newLength h = 1))"
  proof
    assume h: "header_shape os oc nr \<and> LF \<notin> set rest"
    let ?hh = "header_hunk os oc nr rest"
    from h have 1: "parsePatch (header_text os oc nr rest) = Inr [?hh]"
      by (simp add: parse_header_only)
    have ho: "oldLength ?hh = decoded_count oc"
      and hn: "newLength ?hh = (case nr of None \<Rightarrow> 1 | Some (n, c) \<Rightarrow> decoded_count c)"
      by (simp_all add: header_hunk_def)
    from one have 2: "oc = None \<longrightarrow> oldLength ?hh = 1"
      unfolding ho by blast
    from one have 3: "(case nr of None \<Rightarrow> True | Some (n, c) \<Rightarrow> c = None \<or> c = Some []) \<longrightarrow>
        newLength ?hh = 1"
      unfolding hn by blast
    from 1 2 3 show "\<exists>h. parsePatch (header_text os oc nr rest) = Inr [h] \<and>
           (oc = None \<longrightarrow> oldLength h = 1) \<and>
           ((case nr of None \<Rightarrow> True | Some (n, c) \<Rightarrow> c = None \<or> c = Some []) \<longrightarrow>
              newLength h = 1)"
      by blast
  qed
  have g: "parsePatch ''@@ -5 +5 @@'' = Inr [header_5_hunk]"
    by code_simp
  have i: "oldLength header_5_hunk = 1 \<and> newLength header_5_hunk = 1"
    by (simp add: header_5_hunk_def)
  from a b c d e f g i show ?thesis by blast
qed

theorem header_recognition_witness:
  "header_text ''5'' None (Some (''5'', None)) [] = ''@@ -5 +5 @@'' \<and>
   spec_header_shape ''5'' None (Some (''5'', None)) \<and>
   header_shape ''5'' None (Some (''5'', None)) \<and>
   spec_header_pattern ''@@ -5 +5 @@'' \<and>
   DIFF_HUNK_HEADER_test ''@@ -5 +5 @@'' \<and>
   parsePatch ''@@ -5 +5 @@'' = Inr [header_5_hunk] \<and>
   oldLength header_5_hunk = 1 \<and> newLength header_5_hunk = 1 \<and>
   parsePatch comma_patch = Inr comma_result \<and>
   comma_result ! 1 \<in> set comma_result \<and>
   header_raw (comma_result ! 1) = header_text ''1'' None (Some (''2'', Some [])) [] \<and>
   header_shape ''1'' None (Some (''2'', Some [])) \<and>
   oldLength (comma_result ! 1) = 1 \<and> newLength (comma_result ! 1) = 1 \<and>
   filter DIFF_HUNK_HEADER_test (LineReader comma_patch) = [''@@ -5 +5 @@'', ''@@ -1 +2, @@'']"
proof -
  have t: "header_text ''5'' None (Some (''5'', None)) [] = ''@@ -5 +5 @@''"
    by (simp add: header_text_def count_text_def range_text_def)
  have d: "is_digit (CHR ''5'')" "is_digit (CHR ''1'')" "is_digit (CHR ''2'')"
    by (simp_all add: is_digit_def)
  have sp: "spec_header_shape ''5'' None (Some (''5'', None))"
    using d by (simp add: spec_header_shape_def digits_def)
  have hs: "header_shape ''5'' None (Some (''5'', None))"
    using d by (simp add: header_shape_def digits_def)
  have p: "spec_header_pattern ''@@ -5 +5 @@''"
    unfolding spec_header_pattern_def using t sp by metis
  have e: "parsePatch comma_patch = Inr comma_result"
    by code_simp
  have m: "comma_result ! 1 \<in> set comma_result"
    by (simp add: comma_result_def)
  have hr: "header_raw (comma_result ! 1) = header_text ''1'' None (Some (''2'', Some [])) []"
    by (simp add: comma_result_def header_raw_def new_DiffLine_def header_text_def
          count_text_def range_text_def)
  have hs2: "header_shape ''1'' None (Some (''2'', Some []))"
    using d by (simp add: header_shape_def digits_def)
  have mh: "map header_raw comma_result = [''@@ -5 +5 @@'', ''@@ -1 +2, @@'']"
    by (simp add: comma_result_def header_raw_def new_DiffLine_def)
  note r1 = header_recognition [where line = "''@@ -5 +5 @@''"]
  note r2 = header_recognition [where s = comma_patch and hunks = comma_result
      and h = "comma_result ! 1" and os = "''1''" and oc = None
      and nr = "Some (''2'', Some [])" and rest = "[]"]
  from r1 p have 1: "DIFF_HUNK_HEADER_test ''@@ -5 +5 @@''" by blast
  from r1 have 2: "parsePatch ''@@ -5 +5 @@'' = Inr [header_5_hunk] \<and>
      oldLength header_5_hunk = 1 \<and> newLength header_5_hunk = 1" by blast
  from r2 e m hr hs2 have 3: "oldLength (comma_result ! 1) = 1 \<and> newLength (comma_result ! 1) = 1"
    by simp
  from r2 e have "map header_raw comma_result =
      filter DIFF_HUNK_HEADER_test (LineReader comma_patch)" by blast
  with mh have 4: "filter DIFF_HUNK_HEADER_test (LineReader comma_patch) =
      [''@@ -5 +5 @@'', ''@@ -1 +2, @@'']" by simp
  from 1 2 3 4 t sp hs p e m hr hs2 show ?thesis by blast
qed

text \<open>
  The claim as it is written fails at \<open>@@ -5 @@\<close>: the line has no new range, so
  it is outside the specification's pattern, and the parser takes it for a header
  (the new start of the hunk is then \<open>NaN\<close>).
\<close>

theorem header_without_new_range_counterexample:
  "DIFF_HUNK_HEADER_test ''@@ -5 @@'' \<and> \<not> spec_header_pattern ''@@ -5 @@'' \<and>
   parsePatch ''@@ -5 @@'' = Inr [old_only_hunk]"
proof -
  have e: "DIFF_HUNK_HEADER_exec ''@@ -5 @@'' =
      Some \<lparr>group1 = ''5'', group3 = None, group5 = None, group7 = None\<rparr>"
    by code_simp
  then have "DIFF_HUNK_HEADER_test ''@@ -5 @@''" by (simp add: DIFF_HUNK_HEADER_test_def)
  moreover have "\<not> spec_header_pattern ''@@ -5 @@''"
    using spec_pattern_new_range [of "''@@ -5 @@''"] e by auto
  moreover have "parsePatch ''@@ -5 @@'' = Inr [old_only_hunk]"
    by code_simp
  ultimately show ?thesis by blast
qed

text \<open>
  Claim C10. A count of zero is stored as 1, as an omitted count is. For every
  hunk that \<open>parsePatch\<close> returns for any patch, whatever its place in the patch
  and whatever its body: both lengths are at least 1; \<open>oldLength\<close> is 1 when the old
  count of its header denotes 0 and when the header has no old count, and any
  other old count is stored as it is written; and likewise \<open>newLength\<close> for the
  new count. In particular \<open>@@ -1,0 +1,2 @@\<close> yields \<open>oldLength = 1\<close>,
  \<open>@@ -3,2 +3,0 @@\<close> yields \<open>newLength = 1\<close>, and the insertions and the deletion
  of the three-hunk example are stored with length 1 on the side that has no
  lines.
\<close>

theorem explicit_zero_count:
  "(parsePatch s = Inr hunks \<and> h \<in> set hunks \<longrightarrow>
      1 \<le> oldLength h \<and> 1 \<le> newLength h \<and>
      (\<exists>os oc nr rest. header_raw h = header_text os oc nr rest \<and> header_shape os oc nr)) \<and>
   (parsePatch s = Inr hunks \<and> h \<in> set hunks \<and>
    header_raw h = header_text os oc nr rest \<and> header_shape os oc nr \<longrightarrow>
      oldLength h = decoded_count oc \<and>
      newLength h = (case nr of None \<Rightarrow> 1 | Some (n, c) \<Rightarrow> decoded_count c) \<and>
      (\<forall>z. oc = Some z \<and> Number_digits z = 0 \<longrightarrow> oldLength h = 1) \<and>
      (\<forall>n y. nr = Some (n, Some y) \<and> Number_digits y = 0 \<longrightarrow> newLength h = 1) \<and>
      (oc = None \<longrightarrow> oldLength h = 1) \<and>
      (nr = None \<longrightarrow> newLength h = 1) \<and>
      (\<forall>n. nr = Some (n, None) \<longrightarrow> newLength h = 1)) \<and>
   (header_shape os (Some z) (Some (n, Some y)) \<and> LF \<notin> set rest \<longrightarrow>
      (\<exists>h h'. parsePatch (header_text os (Some z) (Some (n, Some y)) rest) = Inr [h] \<and>
         parsePatch (header_text os None (Some (n, None)) rest) = Inr [h'] \<and>
         (Number_digits z = 0 \<longrightarrow> oldLength h = 1 \<and> oldLength h' = 1) \<and>
         (Number_digits y = 0 \<longrightarrow> newLength h = 1 \<and> newLength h' = 1))) \<and>
   parsePatch ''@@ -1,0 +1,2 @@'' = Inr [insertion_hunk] \<and>
   oldLength insertion_hunk = 1 \<and> newLength insertion_hunk = 2 \<and>
   parsePatch ''@@ -3,2 +3,0 @@'' = Inr [deletion_hunk] \<and>
   oldLength deletion_hunk = 2 \<and> newLength deletion_hunk = 1 \<and>
   parsePatch zero_count_patch = Inr zero_count_result \<and>
   map oldLength zero_count_result = [1, 1, 1] \<and>
   map newLength zero_count_result = [1, 2, 1]"
proof -
  have a: "parsePatch s = Inr hunks \<and> h \<in> set hunks \<longrightarrow>
      1 \<le> oldLength h \<and> 1 \<le> newLength h \<and>
      (\<exists>os oc nr rest. header_raw h = header_text os oc nr rest \<and> header_shape os oc nr)"
  proof
    assume p: "parsePatch s = Inr hunks \<and> h \<in> set hunks"
    with parsed_hunk_has_header [of s hunks h] obtain os' oc' nr' rest' where
      hd: "header_raw h = header_text os' oc' nr' rest'" "header_shape os' oc' nr'"
      by blast
    from p hd have o: "oldLength h = decoded_count oc'"
      and n: "newLength h = (case nr' of None \<Rightarrow> 1 | Some (n, c) \<Rightarrow> decoded_count c)"
      using parsed_hunk_decoded [of s hunks h os' oc' nr' rest'] by simp_all
    have "1 \<le> oldLength h" unfolding o by (rule decoded_count_positive)
    moreover have "1 \<le> newLength h" unfolding n
      using decoded_count_positive by (auto split: option.splits)
    ultimately show "1 \<le> oldLength h \<and> 1 \<le> newLength h \<and>
      (\<exists>os oc nr rest. header_raw h = header_text os oc nr rest \<and> header_shape os oc nr)"
      using hd by blast
  qed
  have b: "parsePatch s = Inr hunks \<and> h \<in> set hunks \<and>
    header_raw h = header_text os oc nr rest \<and> header_shape os oc nr \<longrightarrow>
      oldLength h = decoded_count oc \<and>
      newLength h = (case nr of None \<Rightarrow> 1 | Some (n, c) \<Rightarrow> decoded_count c) \<and>
      (\<forall>z. oc = Some z \<and> Number_digits z = 0 \<longrightarrow> oldLength h = 1) \<and>
      (\<forall>n y. nr = Some (n, Some y) \<and> Number_digits y = 0 \<longrightarrow> newLength h = 1) \<and>
      (oc = None \<longrightarrow> oldLength h = 1) \<and>
      (nr = None \<longrightarrow> newLength h = 1) \<and>
      (\<forall>n. nr = Some (n, None) \<longrightarrow> newLength h = 1)"
  proof
    assume p: "parsePatch s = Inr hunks \<and> h \<in> set hunks \<and>
      header_raw h = header_text os oc nr rest \<and> header_shape os oc nr"
    then have o: "oldLength h = decoded_count oc"
      and n: "newLength h = (case nr of None \<Rightarrow> 1 | Some (n, c) \<Rightarrow> decoded_count c)"
      using parsed_hunk_decoded [of s hunks h os oc nr rest] by simp_all
    show "oldLength h = decoded_count oc \<and>
      newLength h = (case nr of None \<Rightarrow> 1 | Some (n, c) \<Rightarrow> decoded_count c) \<and>
      (\<forall>z. oc = Some z \<and> Number_digits z = 0 \<longrightarrow> oldLength h = 1) \<and>
      (\<forall>n y. nr = Some (n, Some y) \<and> Number_digits y = 0 \<longrightarrow> newLength h = 1) \<and>
      (oc = None \<longrightarrow> oldLength h = 1) \<and>
      (nr = None \<longrightarrow> newLength h = 1) \<and>
      (\<forall>n. nr = Some (n, None) \<longrightarrow> newLength h = 1)"
      unfolding o n by (auto simp: decoded_count_def)
  qed
  have g: "header_shape os (Some z) (Some (n, Some y)) \<and> LF \<notin> set rest \<longrightarrow>
      (\<exists>h h'. parsePatch (header_text os (Some z) (Some (n, Some y)) rest) = Inr [h] \<and>
         parsePatch (header_text os None (Some (n, None)) rest) = Inr [h'] \<and>
         (Number_digits z = 0 \<longrightarrow> oldLength h = 1 \<and> oldLength h' = 1) \<and>
         (Number_digits y = 0 \<longrightarrow> newLength h = 1 \<and> newLength h' = 1))"
  proof
    assume a: "header_shape os (Some z) (Some (n, Some y)) \<and> LF \<notin> set rest"
    then have sh: "header_shape os None (Some (n, None))"
      by (simp add: header_shape_def)
    let ?h = "header_hunk os (Some z) (Some (n, Some y)) rest"
    let ?h' = "header_hunk os None (Some (n, None)) rest"
    from a have 1: "parsePatch (header_text os (Some z) (Some (n, Some y)) rest) = Inr [?h]"
      by (simp add: parse_header_only)
    from a sh have 2: "parsePatch (header_text os None (Some (n, None)) rest) = Inr [?h']"
      by (simp add: parse_header_only)
    have 3: "Number_digits z = 0 \<longrightarrow> oldLength ?h = 1 \<and> oldLength ?h' = 1"
      by (simp add: header_hunk_def decoded_count_def)
    have 4: "Number_digits y = 0 \<longrightarrow> newLength ?h = 1 \<and> newLength ?h' = 1"
      by (simp add: header_hunk_def decoded_count_def)
    from 1 2 3 4 show "\<exists>h h'. parsePatch (header_text os (Some z) (Some (n, Some y)) rest) = Inr [h] \<and>
         parsePatch (header_text os None (Some (n, None)) rest) = Inr [h'] \<and>
         (Number_digits z = 0 \<longrightarrow> oldLength h = 1 \<and> oldLength h' = 1) \<and>
         (Number_digits y = 0 \<longrightarrow> newLength h = 1 \<and> newLength h' = 1)"
      by blast
  qed
  have i: "parsePatch ''@@ -1,0 +1,2 @@'' = Inr [insertion_hunk]"
    by code_simp
  have d: "parsePatch ''@@ -3,2 +3,0 @@'' = Inr [deletion_hunk]"
    by code_simp
  have k: "oldLength insertion_hunk = 1 \<and> newLength insertion_hunk = 2 \<and>
      oldLength deletion_hunk = 2 \<and> newLength deletion_hunk = 1"
    by (simp add: insertion_hunk_def deletion_hunk_def)
  have zc: "parsePatch zero_count_patch = Inr zero_count_result"
    by code_simp
  have zl: "map oldLength zero_count_result = [1, 1, 1] \<and>
      map newLength zero_count_result = [1, 2, 1]"
    by (simp add: zero_count_result_def)
  from a b g i d k zc zl show ?thesis by blast
qed

theorem explicit_zero_count_witness:
  "header_shape ''1'' (Some ''0'') (Some (''1'', Some ''2'')) \<and>
   header_text ''1'' (Some ''0'') (Some (''1'', Some ''2'')) [] = ''@@ -1,0 +1,2 @@'' \<and>
   header_text ''1'' None (Some (''1'', None)) [] = ''@@ -1 +1 @@'' \<and>
   Number_digits ''0'' = 0 \<and>
   parsePatch ''@@ -1,0 +1,2 @@'' = Inr [insertion_hunk] \<and> oldLength insertion_hunk = 1 \<and>
   parsePatch ''@@ -1 +1 @@'' = Inr [header_only_hunk] \<and> oldLength header_only_hunk = 1 \<and>
   parsePatch zero_count_patch = Inr zero_count_result \<and>
   zero_count_result ! 1 \<in> set zero_count_result \<and>
   header_raw (zero_count_result ! 1) =
     header_text ''3'' (Some ''0'') (Some (''4'', Some ''2'')) [] \<and>
   header_shape ''3'' (Some ''0'') (Some (''4'', Some ''2'')) \<and>
   oldLength (zero_count_result ! 1) = 1 \<and>
   zero_count_result ! 2 \<in> set zero_count_result \<and>
   header_raw (zero_count_result ! 2) = header_text ''9'' None (Some (''8'', Some ''0'')) [] \<and>
   header_shape ''9'' None (Some (''8'', Some ''0'')) \<and>
   newLength (zero_count_result ! 2) = 1"
proof -
  have d: "is_digit (CHR ''0'')" "is_digit (CHR ''1'')" "is_digit (CHR ''2'')"
    "is_digit (CHR ''3'')" "is_digit (CHR ''4'')" "is_digit (CHR ''8'')" "is_digit (CHR ''9'')"
    by (simp_all add: is_digit_def)
  have sh: "header_shape ''1'' (Some ''0'') (Some (''1'', Some ''2''))"
    using d by (simp add: header_shape_def digits_def)
  have t: "header_text ''1'' (Some ''0'') (Some (''1'', Some ''2'')) [] = ''@@ -1,0 +1,2 @@''"
    "header_text ''1'' None (Some (''1'', None)) [] = ''@@ -1 +1 @@''"
    by (simp_all add: header_text_def count_text_def range_text_def)
  have z: "Number_digits ''0'' = 0"
    by (simp add: Number_digits_def digit_value_def)
  have e: "parsePatch zero_count_patch = Inr zero_count_result"
    by code_simp
  have m1: "zero_count_result ! 1 \<in> set zero_count_result"
    and m2: "zero_count_result ! 2 \<in> set zero_count_result"
    by (simp_all add: zero_count_result_def)
  have h1: "header_raw (zero_count_result ! 1) =
      header_text ''3'' (Some ''0'') (Some (''4'', Some ''2'')) []"
    and h2: "header_raw (zero_count_result ! 2) =
      header_text ''9'' None (Some (''8'', Some ''0'')) []"
    by (simp_all add: zero_count_result_def header_raw_def new_DiffLine_def header_text_def
          count_text_def range_text_def)
  have s1: "header_shape ''3'' (Some ''0'') (Some (''4'', Some ''2''))"
    and s2: "header_shape ''9'' None (Some (''8'', Some ''0''))"
    using d by (simp_all add: header_shape_def digits_def)
  note r = explicit_zero_count [where os = "''1''" and z = "''0''" and n = "''1''"
      and y = "''2''" and rest = "[]"]
  note r1 = explicit_zero_count [where s = zero_count_patch and hunks = zero_count_result
      and h = "zero_count_result ! 1" and os = "''3''" and oc = "Some ''0''"
      and nr = "Some (''4'', Some ''2'')" and rest = "[]"]
  note r2 = explicit_zero_count [where s = zero_count_patch and hunks = zero_count_result
      and h = "zero_count_result ! 2" and os = "''9''" and oc = None
      and nr = "Some (''8'', Some ''0'')" and rest = "[]"]
  from r have i: "parsePatch ''@@ -1,0 +1,2 @@'' = Inr [insertion_hunk] \<and>
      oldLength insertion_hunk = 1" by blast
  have o: "parsePatch ''@@ -1 +1 @@'' = Inr [header_only_hunk] \<and> oldLength header_only_hunk = 1"
    by code_simp
  from r1 e m1 h1 s1 z have 1: "oldLength (zero_count_result ! 1) = 1" by blast
  from r2 e m2 h2 s2 z have 2: "newLength (zero_count_result ! 2) = 1" by blast
  from sh t z i o e m1 m2 h1 h2 s1 s2 1 2 show ?thesis by blast
qed

subsection \<open>Reconstruction with a patch of no hunks\<close>

lemma split_from_nonempty: "split_from piece s \<noteq> []"
  by (induction piece s rule: split_from.induct) auto

lemma join_lines_Cons:
  "join_lines (Some p # ys) = (if ys = [] then p else p @ [LF] @ join_lines ys)"
  by (cases ys) simp_all

lemma join_split_from:
  "join_lines (map Some (split_from piece s)) = piece @ crlf_to_lf s"
proof (induction piece s rule: split_from.induct)
  case (1 piece)
  show ?case by simp
next
  case (2 piece c cs)
  show ?case
  proof (cases "c = LF")
    case True
    with 2 show ?thesis by (simp add: join_lines_Cons split_from_nonempty)
  next
    case False
    show ?thesis
    proof (cases "c = CR \<and> cs \<noteq> [] \<and> hd cs = LF")
      case True
      with 2 False show ?thesis by (simp add: join_lines_Cons split_from_nonempty)
    next
      case no: False
      with 2 False show ?thesis by auto
    qed
  qed
qed

lemma crlf_to_lf_id: "\<not> has_crlf s \<Longrightarrow> crlf_to_lf s = s"
  by (induction s) auto

lemma array_get_all:
  "map (\<lambda>j. array_get xs (j - 1)) [1..int (length xs)] = map Some xs"
proof (induction xs rule: rev_induct)
  case Nil
  show ?case by simp
next
  case (snoc x xs)
  let ?n = "int (length xs)"
  have u: "[1..?n + 1] = [1..?n] @ [?n + 1]"
    using upto_rec2 [of 1 "?n + 1"] by simp
  have a: "map (\<lambda>j. array_get (xs @ [x]) (j - 1)) [1..?n] =
        map (\<lambda>j. array_get xs (j - 1)) [1..?n]"
    by (rule map_cong) (auto simp: array_get_def nth_append)
  have b: "array_get (xs @ [x]) (?n + 1 - 1) = Some x"
    by (simp add: array_get_def)
  have "map (\<lambda>j. array_get (xs @ [x]) (j - 1)) [1..?n + 1] = map Some xs @ [Some x]"
    unfolding u map_append a snoc.IH using b by simp
  then show ?case by (simp add: add.commute)
qed

lemma reconstruct_no_hunks:
  assumes "parsePatch p = Inr []"
  shows "getModifiedContentFromDiffHunk originalContent p = Inr (crlf_to_lf originalContent)"
proof -
  let ?left = "split_newlines originalContent"
  have len: "0 < int (length ?left)"
    using split_from_nonempty [of "[]" originalContent] by (simp add: split_newlines_def)
  have r: "loop_range (Num 1) (Num (int (length ?left) + 1)) = [1..int (length ?left)]"
    by simp
  have j: "join_lines (map Some ?left) = crlf_to_lf originalContent"
    using join_split_from [of "[]" originalContent] by (simp add: split_newlines_def)
  from assms have "parseDiffHunk p = Inr []" by (simp add: parsePatch_def)
  then have "getModifiedContentFromDiffHunk originalContent p =
      Inr (join_lines (map (\<lambda>j. array_get ?left (j - 1))
             (loop_range (Num 1) (Num (int (length ?left) + 1)))))"
    using len by (simp add: getModifiedContentFromDiffHunk_def Let_def del: loop_range.simps)
  then show ?thesis
    unfolding r array_get_all j .
qed

text \<open>
  Claim C4, as amended. With a patch that parses to no hunks, the reconstruction
  returns the original content with every carriage return that stands before a line
  feed left out; an original content without such a pair is returned unchanged.
\<close>

theorem zero_hunks_reconstruction:
  assumes "parsePatch p = Inr []"
  shows "getModifiedContentFromDiffHunk originalContent p = Inr (crlf_to_lf originalContent) \<and>
         (\<not> has_crlf originalContent \<longrightarrow>
            getModifiedContentFromDiffHunk originalContent p = Inr originalContent)"
  using reconstruct_no_hunks [OF assms] by (simp add: crlf_to_lf_id)

theorem zero_hunks_reconstruction_witness:
  "parsePatch ''no diff here'' = Inr [] \<and>
   getModifiedContentFromDiffHunk (''a'' @ [CR, LF] @ ''b'' @ [LF]) ''no diff here'' =
     Inr (crlf_to_lf (''a'' @ [CR, LF] @ ''b'' @ [LF])) \<and>
   crlf_to_lf (''a'' @ [CR, LF] @ ''b'' @ [LF]) = ''a'' @ [LF] @ ''b'' @ [LF] \<and>
   \<not> has_crlf (''a'' @ [LF] @ ''b'') \<and>
   getModifiedContentFromDiffHunk (''a'' @ [LF] @ ''b'') ''no diff here'' = Inr (''a'' @ [LF] @ ''b'')"
proof -
  have e: "parsePatch ''no diff here'' = Inr []"
    by code_simp
  have n: "\<not> has_crlf (''a'' @ [LF] @ ''b'')"
    by simp
  have c: "crlf_to_lf (''a'' @ [CR, LF] @ ''b'' @ [LF]) = ''a'' @ [LF] @ ''b'' @ [LF]"
    by simp
  from zero_hunks_reconstruction [OF e, of "''a'' @ [CR, LF] @ ''b'' @ [LF]"]
    zero_hunks_reconstruction [OF e, of "''a'' @ [LF] @ ''b''"] e n c
  show ?thesis by simp
qed

text \<open>
  The claim as it is written fails for a content with a carriage return before a
  line feed: the content is split at \<open>\r?\n\<close> and joined with line feeds.
\<close>

theorem zero_hunks_crlf_counterexample:
  "parsePatch [] = Inr [] \<and>
   getModifiedContentFromDiffHunk (''a'' @ [CR, LF] @ ''b'') [] = Inr (''a'' @ [LF] @ ''b'') \<and>
   getModifiedContentFromDiffHunk (''a'' @ [CR, LF] @ ''b'') [] \<noteq> Inr (''a'' @ [CR, LF] @ ''b'')"
  by code_simp

subsection \<open>Slim and rich file changes\<close>

lemma parseDiff_review_cases:
  "\<exists>fileChange. parseDiff_review review parentCommit = Inr fileChange \<and>
     produced_as_claimed review fileChange"
proof (cases "slim_condition review")
  case True
  then show ?thesis
    by (simp add: parseDiff_review_def produced_as_claimed_def slim_condition_def Let_def)
next
  case False
  show ?thesis
  proof (cases "patch review")
    case None
    with False show ?thesis
      by (auto simp: parseDiff_review_def produced_as_claimed_def slim_condition_def Let_def
            no_patch_def)
  next
    case (Some p)
    obtain hunks where h: "parsePatch p = Inr hunks"
      using parseDiffHunk_total [of p] by (auto simp: parsePatch_def)
    from False Some h show ?thesis
      by (cases "p = []")
         (auto simp: parseDiff_review_def produced_as_claimed_def slim_condition_def Let_def
            no_patch_def)
  qed
qed

text \<open>
  Claim C3. For every list of records \<open>parseDiff\<close> returns one file change per
  record, in order. The file change of a record is a \<open>SlimFileChange\<close> exactly when
  the record has no patch text, its kind is neither \<open>RENAME\<close> nor \<open>MODIFY\<close>, and it
  is not an \<open>ADD\<close> with \<open>additions = 0\<close>; otherwise it is an \<open>InMemFileChange\<close> whose
  hunks are present exactly when the patch text is.
\<close>

theorem parseDiff_slim_or_rich:
  "\<exists>fileChanges. parseDiff reviews parentCommit = Inr fileChanges \<and>
     list_all2 produced_as_claimed reviews fileChanges"
proof (induction reviews)
  case Nil
  show ?case by simp
next
  case (Cons review reviews)
  from parseDiff_review_cases obtain fc where
    "parseDiff_review review parentCommit = Inr fc" "produced_as_claimed review fc"
    by blast
  with Cons show ?case by auto
qed

theorem parseDiff_slim_or_rich_witness:
  "parseDiff [added_record 0, added_record 3] ''c'' =
     Inr [InMemFileChange ''c'' ADD ''f'' None [] None ''u'',
          SlimFileChange ''c'' ''u'' ADD ''f'' None] \<and>
   \<not> slim_condition (added_record 0) \<and> slim_condition (added_record 3) \<and>
   list_all2 produced_as_claimed [added_record 0, added_record 3]
     [InMemFileChange ''c'' ADD ''f'' None [] None ''u'',
      SlimFileChange ''c'' ''u'' ADD ''f'' None]"
proof -
  have e: "parseDiff [added_record 0, added_record 3] ''c'' =
     Inr [InMemFileChange ''c'' ADD ''f'' None [] None ''u'',
          SlimFileChange ''c'' ''u'' ADD ''f'' None]"
    by code_simp
  have c: "\<not> slim_condition (added_record 0)" "slim_condition (added_record 3)"
    by (simp_all add: slim_condition_def added_record_def no_patch_def getGitChangeType_def)
  from parseDiff_slim_or_rich [of "[added_record 0, added_record 3]" "''c''"] e c
  show ?thesis by simp
qed

text \<open>
  Claim C2, as amended. For every record with status \<open>added\<close> and no patch text:
  with \<open>additions = 0\<close> \<open>parseDiff\<close> builds an \<open>InMemFileChange\<close> with the empty patch
  text and no hunks; with any other number of additions, 3 among them, it builds a
  \<open>SlimFileChange\<close>.
\<close>

theorem added_without_patch:
  assumes "status review = ''added''" and "no_patch (patch review)"
  shows "(additions review = 0 \<longrightarrow>
            parseDiff [review] parentCommit =
              Inr [InMemFileChange parentCommit ADD (filename review) (previous_filename review)
                     [] None (blob_url review)]) \<and>
         (additions review \<noteq> 0 \<longrightarrow>
            parseDiff [review] parentCommit =
              Inr [SlimFileChange parentCommit (blob_url review) ADD (filename review)
                     (previous_filename review)])"
  using assms
  by (auto simp: parseDiff_review_def Let_def getGitChangeType_def no_patch_def
        split: option.splits)

theorem added_without_patch_witness:
  "status (added_record 0) = ''added'' \<and> no_patch (patch (added_record 0)) \<and>
   additions (added_record 0) = 0 \<and>
   parseDiff [added_record 0] ''c'' = Inr [InMemFileChange ''c'' ADD ''f'' None [] None ''u''] \<and>
   status (added_record 3) = ''added'' \<and> no_patch (patch (added_record 3)) \<and>
   additions (added_record 3) \<noteq> 0 \<and>
   parseDiff [added_record 3] ''c'' = Inr [SlimFileChange ''c'' ''u'' ADD ''f'' None]"
proof -
  have a: "status (added_record 0) = ''added''" "no_patch (patch (added_record 0))"
    "additions (added_record 0) = 0"
    by (simp_all add: added_record_def no_patch_def)
  have b: "status (added_record 3) = ''added''" "no_patch (patch (added_record 3))"
    "additions (added_record 3) \<noteq> 0"
    by (simp_all add: added_record_def no_patch_def)
  from added_without_patch [OF a(1,2), of "''c''"] added_without_patch [OF b(1,2), of "''c''"] a b
  show ?thesis by (simp add: added_record_def)
qed

theorem added_without_patch_counterexample:
  "parseDiff [added_record 0] ''c'' = Inr [InMemFileChange ''c'' ADD ''f'' None [] None ''u''] \<and>
   parseDiff [added_record 0] ''c'' \<noteq> Inr [SlimFileChange ''c'' ''u'' ADD ''f'' None] \<and>
   parseDiff [added_record 3] ''c'' = Inr [SlimFileChange ''c'' ''u'' ADD ''f'' None] \<and>
   parseDiff [added_record 3] ''c'' \<noteq> Inr [InMemFileChange ''c'' ADD ''f'' None [] None ''u'']"
  by code_simp


subsection \<open>What the segmenter keeps\<close>

lemma addLineToHunk_lines [simp]: "diffLines (addLineToHunk h l) = diffLines h @ [l]"
  by (simp add: addLineToHunk_def Let_def)

lemma newHunk_lines [simp]: "diffLines (newHunk l) = []"
  by (simp add: newHunk_def)

lemma sandwiched_iff:
  "hunkHasSandwichedChanges h \<longleftrightarrow>
     (\<exists>l \<in> set (diffLines h). line_type l \<noteq> Context) \<and> diffLines h \<noteq> [] \<and>
     line_type (last (diffLines h)) = Context"
proof (cases "diffLines h = []")
  case True
  then show ?thesis by (simp add: hunkHasSandwichedChanges_def hunkHasChanges_def)
next
  case False
  then have "last (diffLines h) = diffLines h ! (length (diffLines h) - 1)"
    by (rule last_conv_nth)
  with False show ?thesis
    by (simp add: hunkHasSandwichedChanges_def hunkHasChanges_def list_ex_iff)
qed

lemma occurrences_snoc:
  "occurrences l (hs @ [h]) = occurrences l hs + (if l \<in> set (diffLines h) then 1 else 0)"
  by (simp add: occurrences_def)

lemma kept_subset: "l \<in> set (kept ls) \<Longrightarrow> l \<in> set ls"
  by (auto simp: kept_def dest: set_dropWhileD)

lemma kept_snoc_context:
  "line_type x = Context \<Longrightarrow> set (kept (ls @ [x])) = insert x (set (kept ls))"
  by (induction ls) (auto simp: kept_def)

lemma kept_snoc_none:
  "line_type x \<noteq> Context \<Longrightarrow> kept ls = [] \<Longrightarrow> kept (ls @ [x]) = []"
  by (induction ls) (auto simp: kept_def split: if_splits)

lemma kept_snoc_some: "kept ls \<noteq> [] \<Longrightarrow> kept (ls @ [x]) = kept ls @ [x]"
  by (induction ls) (auto simp: kept_def)

lemma fresh_total_count:
  assumes "seg_inv ls st" and "x \<notin> set ls"
  shows "total_count st x = 0"
proof -
  from assms(2) have "x \<notin> set (kept ls)" using kept_subset by blast
  moreover from assms(1) have "expected ls x (total_count st x)" by (simp add: seg_inv_def)
  ultimately show ?thesis by (simp add: expected_def)
qed

lemma expected_snoc_other:
  assumes "l \<noteq> x" and "kept ls = [] \<longrightarrow> line_type x = Context"
  shows "expected (ls @ [x]) l n = expected ls l n"
proof (cases "kept ls = []")
  case True
  with assms(2) have "set (kept (ls @ [x])) = insert x (set (kept ls))"
    by (simp add: kept_snoc_context)
  with assms(1) show ?thesis by (simp add: expected_def)
next
  case False
  with assms(1) show ?thesis by (simp add: expected_def kept_snoc_some)
qed

lemma expected_snoc_new:
  assumes "kept ls = [] \<longrightarrow> line_type x = Context"
  shows "x \<in> set (kept (ls @ [x]))"
proof (cases "kept ls = []")
  case True
  with assms show ?thesis by (simp add: kept_snoc_context)
next
  case False
  then show ?thesis by (simp add: kept_snoc_some)
qed

lemma flush_inv:
  assumes inv: "seg_inv ls st" and c: "currentHunk st = Some c"
    and sw: "hunkHasSandwichedChanges c"
  shows "\<exists>n. nextHunk st = Some n \<and>
           seg_inv ls (st\<lparr>splitHunks := splitHunks st @ [c], currentHunk := nextHunk st,
                           nextHunk := None\<rparr>)"
proof -
  from inv c sw obtain n where n: "nextHunk st = Some n"
    by (auto simp: seg_inv_def)
  let ?st = "st\<lparr>splitHunks := splitHunks st @ [c], currentHunk := nextHunk st, nextHunk := None\<rparr>"
  from inv n c have b: "\<And>l. l \<in> set (diffLines n) \<Longrightarrow>
      line_type l = Context \<and> l \<in> set (diffLines c) \<and> occurrences l (splitHunks st) = 0"
    by (simp add: seg_inv_def lines_of_def)
  have t: "total_count ?st l = total_count st l + (if l \<in> set (diffLines n) then 1 else 0)" for l
    by (simp add: total_count_def occurrences_snoc lines_of_def c n)
  have e: "expected ls l (total_count ?st l)" for l
  proof (cases "l \<in> set (diffLines n)")
    case True
    from b [OF True] have 1: "total_count st l = 1" and ctx: "line_type l = Context"
      by (simp_all add: total_count_def lines_of_def c)
    from inv have "expected ls l (total_count st l)" by (simp add: seg_inv_def)
    with 1 have "l \<in> set (kept ls)" by (auto simp: expected_def split: if_splits)
    with ctx True 1 show ?thesis by (simp add: expected_def t)
  next
    case False
    with inv show ?thesis by (simp add: seg_inv_def t)
  qed
  have ns: "\<not> hunkHasSandwichedChanges n"
    using b by (auto simp: sandwiched_iff)
  from inv c have k: "kept ls \<noteq> []" by (simp add: seg_inv_def)
  have "seg_inv ls ?st"
    unfolding seg_inv_def using e ns k by (simp add: lines_of_def n)
  with n show ?thesis by blast
qed

lemma add_change_inv:
  assumes inv: "seg_inv ls st" and c: "currentHunk st = Some c"
    and ns: "\<not> hunkHasSandwichedChanges c" and x: "x \<notin> set ls"
    and ty: "line_type x = Delete \<or> line_type x = Add"
  shows "seg_inv (ls @ [x]) (st\<lparr>currentHunk := Some (addLineToHunk c x)\<rparr>)"
proof -
  let ?st = "st\<lparr>currentHunk := Some (addLineToHunk c x)\<rparr>"
  from inv c have k: "kept ls \<noteq> []" by (simp add: seg_inv_def)
  from fresh_total_count [OF inv x] have f: "total_count st x = 0" .
  then have xc: "x \<notin> set (diffLines c)" and xs: "occurrences x (splitHunks st) = 0"
    by (simp_all add: total_count_def lines_of_def c split: if_splits)
  have t: "total_count ?st l = total_count st l + (if l = x then 1 else 0)" for l
    using xc by (auto simp: total_count_def lines_of_def c)
  have e: "expected (ls @ [x]) l (total_count ?st l)" for l
  proof (cases "l = x")
    case True
    have "x \<in> set (kept (ls @ [x]))" using k by (simp add: expected_snoc_new)
    with True f ty show ?thesis by (auto simp: expected_def t)
  next
    case False
    from inv have "expected ls l (total_count st l)" by (simp add: seg_inv_def)
    with False k show ?thesis by (simp add: t expected_snoc_other)
  qed
  have sw: "\<not> hunkHasSandwichedChanges (addLineToHunk c x)"
    using ty by (auto simp: sandwiched_iff)
  have b: "\<forall>l \<in> set (lines_of (nextHunk ?st)).
      line_type l = Context \<and> l \<in> set (lines_of (currentHunk ?st)) \<and>
      occurrences l (splitHunks ?st) = 0"
    using inv by (auto simp: seg_inv_def lines_of_def c)
  have k': "kept (ls @ [x]) \<noteq> []" using k by (simp add: kept_snoc_some)
  show ?thesis
    unfolding seg_inv_def using e b sw k' by simp
qed

lemma skip_line_inv:
  assumes inv: "seg_inv ls st" and x: "x \<notin> set ls" and ty: "line_type x = Control"
  shows "seg_inv (ls @ [x]) st"
proof -
  from fresh_total_count [OF inv x] have f: "total_count st x = 0" .
  have e: "expected (ls @ [x]) l (total_count st l)" for l
  proof (cases "kept ls = []")
    case True
    with ty have "kept (ls @ [x]) = []" by (simp add: kept_snoc_none)
    moreover from inv have "expected ls l (total_count st l)" by (simp add: seg_inv_def)
    ultimately show ?thesis using True by (simp add: expected_def)
  next
    case False
    show ?thesis
    proof (cases "l = x")
      case True
      with f ty show ?thesis by (simp add: expected_def)
    next
      case ne: False
      from inv have "expected ls l (total_count st l)" by (simp add: seg_inv_def)
      with ne False show ?thesis by (simp add: expected_snoc_other)
    qed
  qed
  have k: "(kept (ls @ [x]) = []) = (kept ls = [])"
    using ty by (cases "kept ls = []") (simp_all add: kept_snoc_none kept_snoc_some)
  show ?thesis
    unfolding seg_inv_def using e inv k by (simp add: seg_inv_def)
qed

lemma skip_change_inv:
  assumes inv: "seg_inv ls st" and c: "currentHunk st = None" and ty: "line_type x \<noteq> Context"
  shows "seg_inv (ls @ [x]) st"
proof -
  from inv c have k: "kept ls = []" by (simp add: seg_inv_def)
  with ty have k': "kept (ls @ [x]) = []" by (simp add: kept_snoc_none)
  have "expected (ls @ [x]) l n = expected ls l n" for l n
    by (simp add: expected_def k k')
  with inv k k' show ?thesis unfolding seg_inv_def by auto
qed

lemma context_inv:
  assumes inv: "seg_inv ls st" and x: "x \<notin> set ls" and ty: "line_type x = Context"
  shows "\<exists>st'. split_step x st = Inr st' \<and> seg_inv (ls @ [x]) st'"
proof -
  let ?c0 = "case currentHunk st of None \<Rightarrow> newHunk x | Some h \<Rightarrow> h"
  let ?n0 = "case nextHunk st of None \<Rightarrow> newHunk x | Some h \<Rightarrow> h"
  let ?cur = "addLineToHunk ?c0 x"
  have c0: "diffLines ?c0 = lines_of (currentHunk st)"
    by (simp add: lines_of_def split: option.splits)
  have n0: "diffLines ?n0 = lines_of (nextHunk st)"
    by (simp add: lines_of_def split: option.splits)
  from fresh_total_count [OF inv x] have f: "total_count st x = 0" .
  then have xc: "x \<notin> set (lines_of (currentHunk st))"
    and xs: "occurrences x (splitHunks st) = 0"
    by (simp_all add: total_count_def split: if_splits)
  have e: "expected (ls @ [x]) l (total_count st l + (if l = x then 1 else 0))" for l
  proof (cases "l = x")
    case True
    have "x \<in> set (kept (ls @ [x]))" using ty by (simp add: expected_snoc_new)
    with True f ty show ?thesis by (simp add: expected_def)
  next
    case False
    from inv have "expected ls l (total_count st l)" by (simp add: seg_inv_def)
    with False ty show ?thesis by (simp add: expected_snoc_other)
  qed
  have k': "kept (ls @ [x]) \<noteq> []" using expected_snoc_new [of ls x] ty by auto
  from inv have b: "\<And>l. l \<in> set (lines_of (nextHunk st)) \<Longrightarrow>
      line_type l = Context \<and> l \<in> set (lines_of (currentHunk st)) \<and>
      occurrences l (splitHunks st) = 0"
    by (simp add: seg_inv_def)
  show ?thesis
  proof (cases "hunkHasSandwichedChanges ?cur")
    case True
    let ?st = "st\<lparr>currentHunk := Some ?cur, nextHunk := Some (addLineToHunk ?n0 x)\<rparr>"
    from True ty have s: "split_step x st = Inr ?st"
      by (simp add: split_step_def Let_def)
    have t: "total_count ?st l = total_count st l + (if l = x then 1 else 0)" for l
      using xc by (auto simp: total_count_def lines_of_def c0)
    have "seg_inv (ls @ [x]) ?st"
      unfolding seg_inv_def using e b ty xs k'
      by (auto simp: t lines_of_def c0 n0)
    with s show ?thesis by blast
  next
    case False
    let ?st = "st\<lparr>currentHunk := Some ?cur\<rparr>"
    from False ty have s: "split_step x st = Inr ?st"
      by (simp add: split_step_def Let_def)
    have t: "total_count ?st l = total_count st l + (if l = x then 1 else 0)" for l
      using xc by (auto simp: total_count_def lines_of_def c0)
    have "seg_inv (ls @ [x]) ?st"
      unfolding seg_inv_def using e b False k'
      by (auto simp: t lines_of_def c0)
    with s show ?thesis by blast
  qed
qed

lemma split_step_inv:
  assumes inv: "seg_inv ls st" and x: "x \<notin> set ls"
  shows "\<exists>st'. split_step x st = Inr st' \<and> seg_inv (ls @ [x]) st'"
proof (cases "line_type x = Context")
  case True
  then show ?thesis by (rule context_inv [OF inv x])
next
  case False
  show ?thesis
  proof (cases "currentHunk st")
    case None
    with False have "split_step x st = Inr st" by (simp add: split_step_def)
    with skip_change_inv [OF inv None False] show ?thesis by simp
  next
    case (Some c)
    let ?st1 = "if hunkHasSandwichedChanges c
                then st\<lparr>splitHunks := splitHunks st @ [c], currentHunk := nextHunk st,
                        nextHunk := None\<rparr>
                else st"
    have 1: "seg_inv ls ?st1 \<and>
        (\<exists>c1. currentHunk ?st1 = Some c1 \<and> \<not> hunkHasSandwichedChanges c1)"
    proof (cases "hunkHasSandwichedChanges c")
      case True
      from flush_inv [OF inv Some True] obtain n where n: "nextHunk st = Some n"
        and i: "seg_inv ls (st\<lparr>splitHunks := splitHunks st @ [c], currentHunk := nextHunk st,
                                nextHunk := None\<rparr>)"
        by blast
      from i n have "\<not> hunkHasSandwichedChanges n" by (auto simp: seg_inv_def)
      with True i n show ?thesis by simp
    next
      case False
      with inv Some show ?thesis by simp
    qed
    then obtain c1 where i1: "seg_inv ls ?st1" and c1: "currentHunk ?st1 = Some c1"
      and ns: "\<not> hunkHasSandwichedChanges c1"
      by blast
    show ?thesis
    proof (cases "line_type x = Delete \<or> line_type x = Add")
      case True
      with False Some c1 have "split_step x st = Inr (?st1\<lparr>currentHunk := Some (addLineToHunk c1 x)\<rparr>)"
        by (simp add: split_step_def Let_def)
      with add_change_inv [OF i1 c1 ns x True] show ?thesis by simp
    next
      case no: False
      with False have ty: "line_type x = Control" by (cases "line_type x") simp_all
      from no False Some have "split_step x st = Inr ?st1"
        by (simp add: split_step_def Let_def)
      with skip_line_inv [OF i1 x ty] show ?thesis by simp
    qed
  qed
qed

lemma split_loop_inv:
  "seg_inv seen st \<Longrightarrow> distinct (seen @ ls) \<Longrightarrow>
     \<exists>st'. split_loop ls st = Inr st' \<and> seg_inv (seen @ ls) st'"
proof (induction ls arbitrary: seen st)
  case Nil
  then show ?case by simp
next
  case (Cons x ls)
  from Cons.prems(2) have x: "x \<notin> set seen" by auto
  from split_step_inv [OF Cons.prems(1) x] obtain st1 where
    1: "split_step x st = Inr st1" and 2: "seg_inv (seen @ [x]) st1"
    by blast
  from Cons.prems(2) have "distinct ((seen @ [x]) @ ls)" by simp
  from Cons.IH [OF 2 this] 1 show ?case by simp
qed

lemma seg_inv_init:
  "seg_inv [] \<lparr>splitHunks = [], currentHunk = None, nextHunk = None\<rparr>"
  by (simp add: seg_inv_def expected_def kept_def total_count_def occurrences_def lines_of_def)

text \<open>
  For a hunk whose lines are pairwise different \<open>splitIntoSmallerHunks\<close> returns
  (the forced \<open>nextHunk!\<close> never meets \<open>undefined\<close>), and every line is in as many
  pieces as \<open>expected\<close> says: a \<open>Context\<close> line in one or two, an \<open>Add\<close> or
  \<open>Delete\<close> line that comes after the first \<open>Context\<close> line in exactly one, and a
  line before the first \<open>Context\<close> line in none.
\<close>

theorem segmenter_occurrences:
  assumes "distinct (diffLines hunk)"
  shows "\<exists>pieces. splitIntoSmallerHunks hunk = Inr pieces \<and>
           (\<forall>l. expected (diffLines hunk) l (occurrences l pieces))"
proof -
  from split_loop_inv [OF seg_inv_init, of "diffLines hunk"] assms
  obtain st where l: "split_loop (diffLines hunk)
        \<lparr>splitHunks = [], currentHunk = None, nextHunk = None\<rparr> = Inr st"
    and i: "seg_inv (diffLines hunk) st"
    by auto
  let ?pieces = "splitHunks st @ (case currentHunk st of Some h \<Rightarrow> [h] | None \<Rightarrow> [])"
  have "occurrences l ?pieces = total_count st l" for l
    by (cases "currentHunk st") (simp_all add: total_count_def lines_of_def occurrences_snoc)
  with i have "\<forall>l. expected (diffLines hunk) l (occurrences l ?pieces)"
    by (simp add: seg_inv_def)
  with l show ?thesis by (simp add: splitIntoSmallerHunks_def)
qed

text \<open>The lines of a parsed hunk are pairwise different, since their positions
  are.\<close>

lemma parsed_lines_distinct:
  assumes "parsePatch s = Inr hunks" and "hunk \<in> set hunks"
  shows "distinct (diffLines hunk)"
proof -
  from assms(1) obtain st where st: "parse_lines (LineReader s) init_state = Inr st"
    and hunks: "hunks = finish st"
    by (auto simp: parsePatch_def parseDiffHunk_def split: sum.splits)
  from position_inv_lines [OF position_inv_init st]
  have "sorted_wrt (<) (map positionInHunk (state_lines st))"
    by (simp add: position_inv_def positions_def)
  then have "distinct (map positionInHunk (state_lines st))"
    by (simp add: strict_sorted_iff)
  then have d: "distinct (concat (map diffLines hunks))"
    unfolding hunks finish_lines by (simp add: distinct_map)
  from assms(2) obtain a b where "hunks = a @ hunk # b"
    by (auto dest: split_list)
  with d show ?thesis by simp
qed

text \<open>So the same holds for every hunk that \<open>parsePatch\<close> returns.\<close>

theorem segmenter_on_parsed_hunks:
  assumes "parsePatch s = Inr hunks" and "hunk \<in> set hunks"
  shows "\<exists>pieces. splitIntoSmallerHunks hunk = Inr pieces \<and>
           (\<forall>l. expected (diffLines hunk) l (occurrences l pieces))"
  by (rule segmenter_occurrences [OF parsed_lines_distinct [OF assms]])

subsection \<open>The segmenter on a hunk that starts with a change\<close>

text \<open>
  Claim C1 asks that every \<open>Add\<close> or \<open>Delete\<close> line of the hunk is in exactly one
  piece. The loop of \<open>splitIntoSmallerHunks\<close> opens the first piece at the first
  \<open>Context\<close> line, and a change line that comes while no piece is open is skipped:
  the hunk parsed from \<open>@@ -1,2 +1,2 @@\<close>, \<open>-a\<close>, \<open>+b\<close>, \<open> c\<close> is cut into one
  piece that holds the context line only, so its \<open>Delete\<close> and its \<open>Add\<close> line are
  in no piece. (The rest of the claim holds, as shown above: the lines from the
  first \<open>Context\<close> line on are kept.)
\<close>

theorem leading_changes_dropped:
  "parsePatch leading_change_patch = Inr [leading_change_hunk] \<and>
   splitIntoSmallerHunks leading_change_hunk = Inr [context_only_hunk] \<and>
   new_DiffLine Delete (Num 1) (Num (- 1)) 1 ''-a'' \<in> set (diffLines leading_change_hunk) \<and>
   new_DiffLine Delete (Num 1) (Num (- 1)) 1 ''-a'' \<notin> set (diffLines context_only_hunk) \<and>
   new_DiffLine Add (Num (- 1)) (Num 1) 2 ''+b'' \<in> set (diffLines leading_change_hunk) \<and>
   new_DiffLine Add (Num (- 1)) (Num 1) 2 ''+b'' \<notin> set (diffLines context_only_hunk)"
proof -
  have "parsePatch leading_change_patch = Inr [leading_change_hunk]"
    by code_simp
  moreover have "splitIntoSmallerHunks leading_change_hunk = Inr [context_only_hunk]"
    by code_simp
  ultimately show ?thesis
    by (simp add: leading_change_hunk_def context_only_hunk_def new_DiffLine_def)
qed

end
